theory Spec2Isabelle
  imports Main "HOL-Library.AList"
begin

section \<open>Python values and containers used by rundmcmc/partition.py\<close>

text \<open>
  The exceptions the module can raise. The source defines no exception class of its own:
  a failed list index is Python's IndexError, a failed dict lookup is KeyError, an
  unbound name is NameError and a method call on None is AttributeError.
\<close>

datatype error = AttributeError | IndexError | KeyError | NameError

text \<open>
  Part labels and node attribute values: Python ints, strings and None
  (None is what \<open>dict.get\<close> returns for a missing key).
\<close>

datatype label = IntL int | StrL string | NoneL

type_synonym attrs = "(string \<times> label) list"

text \<open>
  A networkx graph: its nodes in iteration order, each with its attribute dict,
  and its edges. The input graph has arbitrary node identifiers (\<open>label graph\<close>);
  the graph a Partition stores has integer nodes (\<open>int graph\<close>).
\<close>

record 'n graph =
  gnodes :: "('n \<times> attrs) list"
  gedges :: "('n \<times> 'n) list"

text \<open>
  Indexing a Python list of length \<open>n\<close> with the integer \<open>k\<close>: positions
  \<open>0 .. n-1\<close> are themselves, \<open>-n .. -1\<close> count back from the end, anything else
  is out of range.
\<close>

definition py_index :: "nat \<Rightarrow> int \<Rightarrow> nat option" where
  "py_index n k =
     (if 0 \<le> k \<and> k < int n then Some (nat k)
      else if - int n \<le> k \<and> k < 0 then Some (nat (int n + k))
      else None)"

definition list_get :: "'a list \<Rightarrow> int \<Rightarrow> error + 'a" where
  "list_get xs k =
     (case py_index (length xs) k of None \<Rightarrow> Inl IndexError | Some i \<Rightarrow> Inr (xs ! i))"

definition list_set :: "'a list \<Rightarrow> int \<Rightarrow> 'a \<Rightarrow> error + 'a list" where
  "list_set xs k v =
     (case py_index (length xs) k of None \<Rightarrow> Inl IndexError | Some i \<Rightarrow> Inr (xs[i := v]))"

text \<open>Python's \<open>enumerate(xs, start)\<close>.\<close>

fun enumerate_from :: "int \<Rightarrow> 'a list \<Rightarrow> (int \<times> 'a) list" where
  "enumerate_from i [] = []"
| "enumerate_from i (x # xs) = (i, x) # enumerate_from (i + 1) xs"

text \<open>Running a fallible function over a list, stopping at the first exception.\<close>

fun map_err :: "('a \<Rightarrow> error + 'b) \<Rightarrow> 'a list \<Rightarrow> error + 'b list" where
  "map_err f [] = Inr []"
| "map_err f (x # xs) =
     (case f x of Inl e \<Rightarrow> Inl e
      | Inr y \<Rightarrow> (case map_err f xs of Inl e \<Rightarrow> Inl e | Inr ys \<Rightarrow> Inr (y # ys)))"

subsection \<open>The networkx calls of the module\<close>

text \<open>
  \<open>networkx.convert_node_labels_to_integers(graph, label_attribute=name)\<close>: the nodes are
  numbered \<open>0, 1, ...\<close> in iteration order, every node keeps a copy of its attribute dict
  and gets its old identifier under \<open>name\<close>; every edge is relabelled. A networkx graph
  holds only edges between its own nodes, so the lookup of an endpoint always succeeds.
\<close>

definition node_numbering :: "label graph \<Rightarrow> (label \<times> int) list" where
  "node_numbering g = map (\<lambda>(i, (v, d)). (v, i)) (enumerate_from 0 (gnodes g))"

definition convert_node_labels_to_integers :: "label graph \<Rightarrow> string \<Rightarrow> int graph" where
  "convert_node_labels_to_integers g name =
     \<lparr> gnodes = map (\<lambda>(i, (v, d)). (i, AList.update name v d)) (enumerate_from 0 (gnodes g)),
       gedges = List.map_filter
                  (\<lambda>(u, v). case (map_of (node_numbering g) u, map_of (node_numbering g) v) of
                               (Some i, Some j) \<Rightarrow> Some (i, j) | _ \<Rightarrow> None)
                  (gedges g) \<rparr>"

text \<open>
  \<open>networkx.get_node_attributes(G, name)\<close>: the dict from node to attribute value, over
  the nodes that have the attribute.
\<close>

definition get_node_attributes :: "'n graph \<Rightarrow> string \<Rightarrow> ('n \<times> label) list" where
  "get_node_attributes g name =
     List.map_filter (\<lambda>(v, d). map_option (Pair v) (map_of d name)) (gnodes g)"

text \<open>\<open>d.get(k)\<close>: the value, or None.\<close>

definition dict_get :: "('k \<times> label) list \<Rightarrow> 'k \<Rightarrow> label" where
  "dict_get d k = (case map_of d k of None \<Rightarrow> NoneL | Some v \<Rightarrow> v)"

section \<open>The Partition class\<close>

text \<open>
  The Parts Index \<open>self.parts\<close>: a dict from label to the set of member nodes.
  The source builds it as a \<open>collections.defaultdict(set)\<close> in \<open>_first_time\<close> and as a
  plain dict (the comprehension that ends \<open>_update_parts\<close>) in a child; the two differ in
  what reading a missing key does, so the model records which one it is.
\<close>

record parts_index =
  is_defaultdict :: bool
  items :: "(label \<times> int set) list"

text \<open>One entry of the Flow Record: \<open>{'in': set, 'out': set}\<close>.\<close>

record flow =
  flow_in :: "int set"
  flow_out :: "int set"

datatype edge_change = NewlyCut | NewlyUncut | Unchanged

text \<open>
  The attributes of a Partition that its updaters can read. \<open>parent\<close> is the parent
  Partition as it is when the child's construction ends.
\<close>

datatype 'm pstate = PState
  (graph: "int graph")
  (assignment: "label list")
  (parts: parts_index)
  (parent: "'m pstate option")
  (flips: "(int \<times> label) list option")
  (flows: "(label \<times> flow) list option")
  (edge_flows: "((int \<times> int) \<times> edge_change) list option")
  (max_edge_cuts: 'm)

text \<open>
  A Partition object: its attributes, the Updater Registry \<open>self.updaters\<close> and the
  Cache \<open>self._cache\<close>. An updater is a function of the Partition's attributes.
\<close>

record ('m, 'v) partition =
  view :: "'m pstate"
  updaters :: "(string \<times> ('m pstate \<Rightarrow> 'v)) list"
  cache :: "(string \<times> 'v) list"

subsection \<open>crosses\_parts\<close>

definition crosses_parts_of :: "label list \<Rightarrow> int \<times> int \<Rightarrow> error + bool" where
  "crosses_parts_of a edge =
     (case list_get a (fst edge) of Inl e \<Rightarrow> Inl e
      | Inr x \<Rightarrow> (case list_get a (snd edge) of Inl e \<Rightarrow> Inl e | Inr y \<Rightarrow> Inr (x \<noteq> y)))"

definition crosses_parts :: "('m, 'v) partition \<Rightarrow> int \<times> int \<Rightarrow> error + bool" where
  "crosses_parts p edge = crosses_parts_of (assignment (view p)) edge"

subsection \<open>The functions imported from rundmcmc.proposals and rundmcmc.updaters\<close>

text \<open>
  Modelled from the spec: \<open>max_edge_cuts\<close> (rundmcmc.proposals) is not among the sources.
  The spec (section 6) describes it as a scalar computed from the Partition's edge
  classification, that is from which edges of the graph cross parts; the scalar function
  itself is the parameter \<open>mec\<close>.
\<close>

definition max_edge_cuts_fn ::
  "(((int \<times> int) \<times> bool) list \<Rightarrow> 'm) \<Rightarrow> int graph \<Rightarrow> label list \<Rightarrow> error + 'm" where
  "max_edge_cuts_fn mec g a =
     (case map_err (crosses_parts_of a) (gedges g) of
        Inl e \<Rightarrow> Inl e
      | Inr cs \<Rightarrow> Inr (mec (zip (gedges g) cs)))"

text \<open>
  Modelled from the spec: \<open>flows_from_changes\<close> (rundmcmc.updaters) is not among the
  sources. Spec section 4.2: for each node in flips, with oldLabel the prior assignment
  of the node and newLabel its flip, nothing is recorded when they are equal; otherwise
  the node is recorded as entering newLabel and leaving oldLabel. The result is grouped by
  affected label. The prior assignment is the parent's Python list, read by index.
\<close>

definition flow_of :: "(label \<times> flow) list \<Rightarrow> label \<Rightarrow> flow" where
  "flow_of F l = (case map_of F l of None \<Rightarrow> \<lparr> flow_in = {}, flow_out = {} \<rparr> | Some f \<Rightarrow> f)"

text \<open>Modelled from the spec: recording a node as entering a label (part of \<open>flows_from_changes\<close>).\<close>

definition add_in :: "label \<Rightarrow> int \<Rightarrow> (label \<times> flow) list \<Rightarrow> (label \<times> flow) list" where
  "add_in l node F = AList.update l ((flow_of F l)\<lparr> flow_in := insert node (flow_in (flow_of F l)) \<rparr>) F"

text \<open>Modelled from the spec: recording a node as leaving a label (part of \<open>flows_from_changes\<close>).\<close>

definition add_out :: "label \<Rightarrow> int \<Rightarrow> (label \<times> flow) list \<Rightarrow> (label \<times> flow) list" where
  "add_out l node F = AList.update l ((flow_of F l)\<lparr> flow_out := insert node (flow_out (flow_of F l)) \<rparr>) F"

text \<open>Modelled from the spec: the pass of \<open>flows_from_changes\<close> over the items of the Flip Set.\<close>

fun flows_loop ::
  "label list \<Rightarrow> (int \<times> label) list \<Rightarrow> (label \<times> flow) list \<Rightarrow> error + (label \<times> flow) list" where
  "flows_loop old [] F = Inr F"
| "flows_loop old ((node, target) # fs) F =
     (case list_get old node of
        Inl e \<Rightarrow> Inl e
      | Inr source \<Rightarrow>
          flows_loop old fs
            (if source \<noteq> target then add_out source node (add_in target node F) else F))"

text \<open>Modelled from the spec: \<open>flows_from_changes(old_assignment, flips)\<close>, starting from no flows.\<close>

definition flows_from_changes ::
  "label list \<Rightarrow> (int \<times> label) list \<Rightarrow> error + (label \<times> flow) list" where
  "flows_from_changes old fl = flows_loop old fl []"

text \<open>
  Modelled from the spec: \<open>compute_edge_flows\<close> (rundmcmc.updaters) is not among the
  sources. Spec section 4.2: every edge with a flipped endpoint is classified as newly
  cut, newly uncut or unchanged, comparing whether it crosses parts in the parent and in
  the child; edges with no flipped endpoint are skipped.
\<close>

definition classify_edge :: "label list \<Rightarrow> label list \<Rightarrow> int \<times> int \<Rightarrow> error + ((int \<times> int) \<times> edge_change)" where
  "classify_edge old new edge =
     (case crosses_parts_of old edge of
        Inl e \<Rightarrow> Inl e
      | Inr was \<Rightarrow>
          (case crosses_parts_of new edge of
             Inl e \<Rightarrow> Inl e
           | Inr now \<Rightarrow>
               Inr (edge, if now \<and> \<not> was then NewlyCut
                          else if was \<and> \<not> now then NewlyUncut else Unchanged)))"

text \<open>Modelled from the spec: \<open>compute_edge_flows(partition)\<close>, over the edges with a flipped endpoint.\<close>

definition compute_edge_flows ::
  "int graph \<Rightarrow> label list \<Rightarrow> label list \<Rightarrow> (int \<times> label) list
   \<Rightarrow> error + ((int \<times> int) \<times> edge_change) list" where
  "compute_edge_flows g old new fl =
     map_err (classify_edge old new)
       (filter (\<lambda>(u, v). u \<in> fst ` set fl \<or> v \<in> fst ` set fl) (gedges g))"

subsection \<open>\_first\_time\<close>

text \<open>
  Lines 61-63: \<open>self.parts = collections.defaultdict(set)\<close> and, for every
  \<open>(node, part)\<close> of \<open>enumerate(self.assignment)\<close>, \<open>self.parts[part].add(node)\<close>.
\<close>

definition members :: "(label \<times> int set) list \<Rightarrow> label \<Rightarrow> int set" where
  "members d l = (case map_of d l of None \<Rightarrow> {} | Some s \<Rightarrow> s)"

fun group_loop :: "(int \<times> label) list \<Rightarrow> (label \<times> int set) list \<Rightarrow> (label \<times> int set) list" where
  "group_loop [] d = d"
| "group_loop ((node, part) # xs) d =
     group_loop xs (AList.update part (insert node (members d part)) d)"

definition group_parts :: "label list \<Rightarrow> parts_index" where
  "group_parts a = \<lparr> is_defaultdict = True, items = group_loop (enumerate_from 0 a) [] \<rparr>"

text \<open>
  Lines 40-47: every node gets label 0; when \<open>assignment\<close> is truthy it names a node
  attribute and the labels are read with \<open>get_node_attributes(...).get\<close> over
  \<open>range(len(graph.nodes))\<close>. A None and an empty string are falsy.
\<close>

definition initial_assignment :: "int graph \<Rightarrow> nat \<Rightarrow> string option \<Rightarrow> label list" where
  "initial_assignment g n a =
     (case a of
        None \<Rightarrow> replicate n (IntL 0)
      | Some name \<Rightarrow>
          if name = [] then replicate n (IntL 0)
          else map (\<lambda>i. dict_get (get_node_attributes g name) (int i)) [0..<n])"

text \<open>
  \<open>_first_time(graph, assignment, updaters)\<close>. A graph of None fails in networkx with an
  AttributeError. The result is the object before \<open>_update\<close> has run (no cache yet).
\<close>

definition first_time ::
  "(((int \<times> int) \<times> bool) list \<Rightarrow> 'm) \<Rightarrow> label graph option \<Rightarrow> string option
   \<Rightarrow> (string \<times> ('m pstate \<Rightarrow> 'v)) list option \<Rightarrow> error + ('m, 'v) partition" where
  "first_time mec gr a ups =
     (case gr of
        None \<Rightarrow> Inl AttributeError
      | Some g0 \<Rightarrow>
          (let g = convert_node_labels_to_integers g0 ''OLDID'';
               asg = initial_assignment g (length (gnodes g0)) a
           in case max_edge_cuts_fn mec g asg of
                Inl e \<Rightarrow> Inl e
              | Inr m \<Rightarrow>
                  Inr \<lparr> view = PState g asg (group_parts asg) None None None None m,
                        updaters = (case ups of None \<Rightarrow> [] | Some u \<Rightarrow> u),
                        cache = [] \<rparr>))"

subsection \<open>\_from\_parent and \_update\_parts\<close>

text \<open>Lines 69-71: the copy of the parent's list, with every flip written by index.\<close>

fun apply_flips :: "label list \<Rightarrow> (int \<times> label) list \<Rightarrow> error + label list" where
  "apply_flips a [] = Inr a"
| "apply_flips a ((key, val) # fs) =
     (case list_set a key val of Inl e \<Rightarrow> Inl e | Inr a' \<Rightarrow> apply_flips a' fs)"

text \<open>
  \<open>self.parent.parts[part]\<close> (line 96): on a defaultdict a missing key is inserted with
  an empty set, which changes the parent's dict; on a plain dict it raises KeyError.
\<close>

definition parts_getitem :: "parts_index \<Rightarrow> label \<Rightarrow> error + (parts_index \<times> int set)" where
  "parts_getitem d part =
     (case map_of (items d) part of
        Some s \<Rightarrow> Inr (d, s)
      | None \<Rightarrow>
          if is_defaultdict d then Inr (d\<lparr> items := items d @ [(part, {})] \<rparr>, {})
          else Inl KeyError)"

text \<open>
  Lines 95-96: the loop over \<open>self.flows.items()\<close>. It threads the parent's Parts Index
  (which reading may change) and the child's.
\<close>

fun parts_loop ::
  "(label \<times> flow) list \<Rightarrow> parts_index \<Rightarrow> (label \<times> int set) list
   \<Rightarrow> error + (parts_index \<times> (label \<times> int set) list)" where
  "parts_loop [] pp sp = Inr (pp, sp)"
| "parts_loop ((part, fl) # rest) pp sp =
     (case parts_getitem pp part of
        Inl e \<Rightarrow> Inl e
      | Inr (pp', s) \<Rightarrow>
          parts_loop rest pp' (AList.update part ((s \<union> flow_in fl) - flow_out fl) sp))"

text \<open>
  Line 99: the comprehension keeps the entries with \<open>len(nodes) > 0\<close>; a Python set is
  finite, so that is a non-empty set. The result is a plain dict.
\<close>

definition prune :: "(label \<times> int set) list \<Rightarrow> parts_index" where
  "prune sp = \<lparr> is_defaultdict = False, items = filter (\<lambda>(part, nodes). nodes \<noteq> {}) sp \<rparr>"

text \<open>
  \<open>_update_parts\<close>, given the parent's attributes, the flips and the child's assignment.
  It returns the parent's Parts Index after the loop, the flows, the edge flows and the
  child's Parts Index.
\<close>

definition update_parts ::
  "'m pstate \<Rightarrow> (int \<times> label) list \<Rightarrow> label list
   \<Rightarrow> error + (parts_index \<times> (label \<times> flow) list \<times> ((int \<times> int) \<times> edge_change) list \<times> parts_index)" where
  "update_parts par fl asg =
     (case flows_from_changes (assignment par) fl of
        Inl e \<Rightarrow> Inl e
      | Inr F \<Rightarrow>
          (case compute_edge_flows (graph par) (assignment par) asg fl of
             Inl e \<Rightarrow> Inl e
           | Inr ef \<Rightarrow>
               (case parts_loop F (parts par) (items (parts par)) of
                  Inl e \<Rightarrow> Inl e
                | Inr (pp, sp) \<Rightarrow> Inr (pp, F, ef, prune sp))))"

text \<open>
  \<open>_from_parent(parent, flips)\<close>: returns the parent as the call leaves it and the child
  before \<open>_update\<close> has run. The child's \<open>max_edge_cuts\<close> is the parent's at this point
  (line 76). Flips of None fail at \<open>flips.items()\<close>.
\<close>

definition from_parent ::
  "('m, 'v) partition \<Rightarrow> (int \<times> label) list option
   \<Rightarrow> error + (('m, 'v) partition \<times> ('m, 'v) partition)" where
  "from_parent par fo =
     (case fo of
        None \<Rightarrow> Inl AttributeError
      | Some fl \<Rightarrow>
          (case apply_flips (assignment (view par)) fl of
             Inl e \<Rightarrow> Inl e
           | Inr asg \<Rightarrow>
               (case update_parts (view par) fl asg of
                  Inl e \<Rightarrow> Inl e
                | Inr (pp, F, ef, sp) \<Rightarrow>
                    (let pv = view par;
                         pv' = PState (graph pv) (assignment pv) pp (parent pv) (flips pv)
                                 (flows pv) (edge_flows pv) (max_edge_cuts pv);
                         par' = par\<lparr> view := pv' \<rparr>
                     in Inr (par',
                             \<lparr> view = PState (graph pv) asg sp (Some pv') (Some fl) (Some F)
                                        (Some ef) (max_edge_cuts pv),
                               updaters = updaters par,
                               cache = [] \<rparr>)))))"

subsection \<open>\_update, \_\_init\_\_, merge and \_\_getitem\_\_\<close>

text \<open>
  Lines 104-106: for every key of the registry that the cache does not hold, the updater
  is looked up and called on the Partition.
\<close>

fun update_loop ::
  "(string \<times> ('m pstate \<Rightarrow> 'v)) list \<Rightarrow> 'm pstate \<Rightarrow> string list \<Rightarrow> (string \<times> 'v) list
   \<Rightarrow> error + (string \<times> 'v) list" where
  "update_loop ups s [] c = Inr c"
| "update_loop ups s (key # ks) c =
     (if key \<in> fst ` set c then update_loop ups s ks c
      else (case map_of ups key of
              None \<Rightarrow> Inl KeyError
            | Some f \<Rightarrow> update_loop ups s ks (AList.update key (f s) c)))"

definition update :: "('m, 'v) partition \<Rightarrow> error + ('m, 'v) partition" where
  "update p =
     (case update_loop (updaters p) (view p) (map fst (updaters p)) [] of
        Inl e \<Rightarrow> Inl e
      | Inr c \<Rightarrow> Inr (p\<lparr> cache := c \<rparr>))"

text \<open>\<open>len(self)\<close> is the number of parts; a Partition with no part is falsy.\<close>

definition len :: "('m, 'v) partition \<Rightarrow> nat" where
  "len p = length (items (parts (view p)))"

text \<open>Lines 32-34, after either constructor: fill the cache, then recompute max\_edge\_cuts.\<close>

definition finish_init ::
  "(((int \<times> int) \<times> bool) list \<Rightarrow> 'm) \<Rightarrow> ('m, 'v) partition \<Rightarrow> error + ('m, 'v) partition" where
  "finish_init mec p =
     (case update p of
        Inl e \<Rightarrow> Inl e
      | Inr q \<Rightarrow>
          (case max_edge_cuts_fn mec (graph (view q)) (assignment (view q)) of
             Inl e \<Rightarrow> Inl e
           | Inr m \<Rightarrow>
               (let v = view q
                in Inr (q\<lparr> view := PState (graph v) (assignment v) (parts v) (parent v) (flips v)
                                      (flows v) (edge_flows v) m \<rparr>))))"

text \<open>
  \<open>__init__\<close>: \<open>if parent:\<close> tests the parent's truth value, which for a class with
  \<open>__len__\<close> is \<open>len(parent) > 0\<close>. The result is the parent as the call leaves it
  (when the parent was used) and the new Partition; when the call raises, the result is the
  exception.
\<close>

definition init ::
  "(((int \<times> int) \<times> bool) list \<Rightarrow> 'm) \<Rightarrow> label graph option \<Rightarrow> string option
   \<Rightarrow> (string \<times> ('m pstate \<Rightarrow> 'v)) list option
   \<Rightarrow> ('m, 'v) partition option \<Rightarrow> (int \<times> label) list option
   \<Rightarrow> error + (('m, 'v) partition option \<times> ('m, 'v) partition)" where
  "init mec gr a ups par fo =
     (if (case par of None \<Rightarrow> False | Some p \<Rightarrow> 0 < len p) then
        (case par of
           None \<Rightarrow> Inl AttributeError
         | Some p \<Rightarrow>
             (case from_parent p fo of
                Inl e \<Rightarrow> Inl e
              | Inr (p', c) \<Rightarrow>
                  (case finish_init mec c of Inl e \<Rightarrow> Inl e | Inr c' \<Rightarrow> Inr (Some p', c'))))
      else
        (case first_time mec gr a ups of
           Inl e \<Rightarrow> Inl e
         | Inr r \<Rightarrow> (case finish_init mec r of Inl e \<Rightarrow> Inl e | Inr r' \<Rightarrow> Inr (par, r'))))"

text \<open>Creating a root: \<open>Partition(graph, assignment, updaters)\<close>.\<close>

definition create_root ::
  "(((int \<times> int) \<times> bool) list \<Rightarrow> 'm) \<Rightarrow> label graph option \<Rightarrow> string option
   \<Rightarrow> (string \<times> ('m pstate \<Rightarrow> 'v)) list option \<Rightarrow> error + ('m, 'v) partition" where
  "create_root mec gr a ups =
     (case init mec gr a ups None None of Inl e \<Rightarrow> Inl e | Inr (_, r) \<Rightarrow> Inr r)"

text \<open>
  \<open>merge(flips)\<close> is \<open>self.__class__(parent=self, flips=flips)\<close>. It returns the parent as the
  call leaves it and the child.
\<close>

definition merge ::
  "(((int \<times> int) \<times> bool) list \<Rightarrow> 'm) \<Rightarrow> ('m, 'v) partition \<Rightarrow> (int \<times> label) list
   \<Rightarrow> error + (('m, 'v) partition \<times> ('m, 'v) partition)" where
  "merge mec p fl =
     (case init mec None None None (Some p) (Some fl) of
        Inl e \<Rightarrow> Inl e
      | Inr (po, c) \<Rightarrow> Inr ((case po of None \<Rightarrow> p | Some p' \<Rightarrow> p'), c))"

text \<open>\<open>__getitem__(key)\<close>: returns the Partition with its cache as the call leaves it, and the value.\<close>

definition getitem :: "('m, 'v) partition \<Rightarrow> string \<Rightarrow> error + (('m, 'v) partition \<times> 'v)" where
  "getitem p key =
     (case map_of (cache p) key of
        Some v \<Rightarrow> Inr (p, v)
      | None \<Rightarrow>
          (case map_of (updaters p) key of
             None \<Rightarrow> Inl KeyError
           | Some f \<Rightarrow> Inr (p\<lparr> cache := AList.update key (f (view p)) (cache p) \<rparr>, f (view p))))"

subsection \<open>assignment\_by\_nodeid\<close>

text \<open>
  Lines 131-134 read \<open>range(len(graph.nodes))\<close>: \<open>graph\<close> is neither a local of the method
  nor a parameter, so Python looks it up among the module's globals. The module binds
  \<open>collections\<close>, \<open>networkx\<close>, \<open>max_edge_cuts\<close>, \<open>flows_from_changes\<close>,
  \<open>compute_edge_flows\<close> and \<open>Partition\<close>: no global is called \<open>graph\<close>, and no
  builtin either, so the lookup raises NameError. (The graph in the other branch of
  \<open>global_graph\<close> only gives that branch a value; the module has no such global.)
\<close>

definition module_globals :: "string list" where
  "module_globals = [''collections'', ''networkx'', ''max_edge_cuts'', ''flows_from_changes'',
                     ''compute_edge_flows'', ''Partition'']"

definition global_graph :: "error + label graph" where
  "global_graph = (if ''graph'' \<in> set module_globals then Inr \<lparr> gnodes = [], gedges = [] \<rparr>
                   else Inl NameError)"

definition assignment_by_nodeid :: "('m, 'v) partition \<Rightarrow> error + (label \<times> label) list" where
  "assignment_by_nodeid p =
     (case global_graph of
        Inl e \<Rightarrow> Inl e
      | Inr g \<Rightarrow>
          Inr (zip (map (\<lambda>i. dict_get (get_node_attributes (graph (view p)) ''OLDID'') (int i))
                      [0..<length (gnodes g)])
                   (assignment (view p))))"


section \<open>Notions used to state the properties\<close>

text \<open>The inverse image of a label under an assignment: the nodes \<open>0 .. n-1\<close> that carry it.\<close>

definition preimage :: "label list \<Rightarrow> label \<Rightarrow> int set" where
  "preimage a l = {i. 0 \<le> i \<and> i < int (length a) \<and> a ! nat i = l}"

text \<open>A Flip Set over \<open>n\<close> nodes: a dict (no key twice) whose keys are NodeIds \<open>0 .. n-1\<close>.\<close>

definition valid_flips :: "nat \<Rightarrow> (int \<times> label) list \<Rightarrow> bool" where
  "valid_flips n fl \<longleftrightarrow> distinct (map fst fl) \<and> (\<forall>k \<in> fst ` set fl. 0 \<le> k \<and> k < int n)"

text \<open>A Parts Index agrees with an assignment: every label's member set (empty when the label
  is absent) is the inverse image of the label. Entries with an empty set are allowed here.\<close>

definition parts_match :: "parts_index \<Rightarrow> label list \<Rightarrow> bool" where
  "parts_match d a \<longleftrightarrow> distinct (map fst (items d)) \<and> (\<forall>l. members (items d) l = preimage a l)"

text \<open>The fully applied post-flip assignment: a flipped node has its new label, any other its old one.\<close>

definition flipped :: "label list \<Rightarrow> (int \<times> label) list \<Rightarrow> label list" where
  "flipped a fl = map (\<lambda>i. case map_of fl (int i) of None \<Rightarrow> a ! i | Some t \<Rightarrow> t) [0..<length a]"

text \<open>The nodes a Flip Set moves into a label, relative to a prior assignment.\<close>

definition entering :: "label list \<Rightarrow> (int \<times> label) list \<Rightarrow> label \<Rightarrow> int set" where
  "entering a fl l = {k. (k, l) \<in> set fl \<and> a ! nat k \<noteq> l}"

text \<open>The nodes a Flip Set moves out of a label, relative to a prior assignment.\<close>

definition leaving :: "label list \<Rightarrow> (int \<times> label) list \<Rightarrow> label \<Rightarrow> int set" where
  "leaving a fl l = {k. \<exists>t. (k, t) \<in> set fl \<and> a ! nat k = l \<and> t \<noteq> l}"

section \<open>Concrete Partitions\<close>

text \<open>An instance of the scalar behind max\_edge\_cuts: the number of cut edges.\<close>

definition count_cut :: "((int \<times> int) \<times> bool) list \<Rightarrow> nat" where
  "count_cut cs = length (filter snd cs)"

text \<open>
  The path graph on the nodes 0, 1, 2, 3, every node with the attribute \<open>district = "A"\<close>,
  the graph the root stores for it, the root, the flip \<open>{2: "B", 3: "B"}\<close>, and the root
  and the child as \<open>merge\<close> leaves them.
\<close>

definition g4 :: "label graph" where
  "g4 = \<lparr> gnodes = [(IntL 0, [(''district'', StrL ''A'')]), (IntL 1, [(''district'', StrL ''A'')]),
                  (IntL 2, [(''district'', StrL ''A'')]), (IntL 3, [(''district'', StrL ''A'')])],
         gedges = [(IntL 0, IntL 1), (IntL 1, IntL 2), (IntL 2, IntL 3)] \<rparr>"

definition h4 :: "int graph" where
  "h4 = \<lparr> gnodes = [(0, [(''district'', StrL ''A''), (''OLDID'', IntL 0)]),
                   (1, [(''district'', StrL ''A''), (''OLDID'', IntL 1)]),
                   (2, [(''district'', StrL ''A''), (''OLDID'', IntL 2)]),
                   (3, [(''district'', StrL ''A''), (''OLDID'', IntL 3)])],
          gedges = [(0, 1), (1, 2), (2, 3)] \<rparr>"

definition root4 :: "(nat, nat) partition" where
  "root4 = \<lparr> view = PState h4 [StrL ''A'', StrL ''A'', StrL ''A'', StrL ''A'']
                      \<lparr> is_defaultdict = True, items = [(StrL ''A'', {3, 2, 1, 0})] \<rparr>
                      None None None None 0,
             updaters = [], cache = [] \<rparr>"

definition flips4 :: "(int \<times> label) list" where
  "flips4 = [(2, StrL ''B''), (3, StrL ''B'')]"

definition root4_after :: "(nat, nat) partition" where
  "root4_after = \<lparr> view = PState h4 [StrL ''A'', StrL ''A'', StrL ''A'', StrL ''A'']
                      \<lparr> is_defaultdict = True, items = [(StrL ''A'', {3, 2, 1, 0}), (StrL ''B'', {})] \<rparr>
                      None None None None 0,
             updaters = [], cache = [] \<rparr>"

definition child4 :: "(nat, nat) partition" where
  "child4 = \<lparr> view = PState h4 [StrL ''A'', StrL ''A'', StrL ''B'', StrL ''B'']
                      \<lparr> is_defaultdict = False, items = [(StrL ''A'', {1, 0}), (StrL ''B'', {3, 2})] \<rparr>
                      (Some (view root4_after)) (Some flips4)
                      (Some [(StrL ''B'', \<lparr> flow_in = {3, 2}, flow_out = {} \<rparr>),
                             (StrL ''A'', \<lparr> flow_in = {}, flow_out = {3, 2} \<rparr>)])
                      (Some [((1, 2), NewlyCut), ((2, 3), Unchanged)]) 1,
             updaters = [], cache = [] \<rparr>"

text \<open>The child of \<open>merge({0: "A"})\<close> on the root as the first merge left it.\<close>

definition noop4 :: "(nat, nat) partition" where
  "noop4 = \<lparr> view = PState h4 [StrL ''A'', StrL ''A'', StrL ''A'', StrL ''A'']
                      \<lparr> is_defaultdict = False, items = [(StrL ''A'', {3, 2, 1, 0})] \<rparr>
                      (Some (view root4_after)) (Some [(0, StrL ''A'')]) (Some [])
                      (Some [((0, 1), Unchanged)]) 0,
             updaters = [], cache = [] \<rparr>"

text \<open>
  Two updaters, the number of parts and the value of the attribute \<open>max_edge_cuts\<close>; the
  root of the scenario built with the registry \<open>{"nparts": nparts, "cuts": cuts}\<close>; and
  that root and its child as the flip \<open>{2: "B", 3: "B"}\<close> leaves them.
\<close>

definition nparts :: "nat pstate \<Rightarrow> nat" where
  "nparts s = length (items (parts s))"

definition cuts :: "nat pstate \<Rightarrow> nat" where
  "cuts s = max_edge_cuts s"

definition root4u :: "(nat, nat) partition" where
  "root4u = root4\<lparr> updaters := [(''nparts'', nparts), (''cuts'', cuts)],
                   cache := [(''nparts'', 1), (''cuts'', 0)] \<rparr>"

definition root4u_after :: "(nat, nat) partition" where
  "root4u_after = root4_after\<lparr> updaters := [(''nparts'', nparts), (''cuts'', cuts)],
                               cache := [(''nparts'', 1), (''cuts'', 0)] \<rparr>"

definition child4u :: "(nat, nat) partition" where
  "child4u = child4\<lparr> updaters := [(''nparts'', nparts), (''cuts'', cuts)],
                     cache := [(''nparts'', 2), (''cuts'', 0)] \<rparr>"

text \<open>A graph with two nodes of which only the first has the attribute \<open>district\<close>, and the
  root built from it with \<open>assignment = "district"\<close>.\<close>

definition g2 :: "label graph" where
  "g2 = \<lparr> gnodes = [(StrL ''a'', [(''district'', StrL ''A'')]), (StrL ''b'', [])],
          gedges = [(StrL ''a'', StrL ''b'')] \<rparr>"

definition root2 :: "(nat, nat) partition" where
  "root2 = \<lparr> view = PState \<lparr> gnodes = [(0, [(''district'', StrL ''A''), (''OLDID'', StrL ''a'')]),
                                      (1, [(''OLDID'', StrL ''b'')])],
                             gedges = [(0, 1)] \<rparr>
                      [StrL ''A'', NoneL]
                      \<lparr> is_defaultdict = True, items = [(StrL ''A'', {0}), (NoneL, {1})] \<rparr>
                      None None None None 1,
             updaters = [], cache = [] \<rparr>"

text \<open>The state an updater sees while \<open>_update\<close> runs: \<open>max_edge_cuts\<close> has not been
  recomputed yet and holds the value \<open>m\<close> set by the constructor.\<close>

definition view_during_update :: "'m pstate \<Rightarrow> 'm \<Rightarrow> 'm pstate" where
  "view_during_update s m =
     PState (graph s) (assignment s) (parts s) (parent s) (flips s) (flows s) (edge_flows s) m"

text \<open>The edges of a stored graph join nodes \<open>0 .. n-1\<close>.\<close>

definition graph_ok :: "int graph \<Rightarrow> nat \<Rightarrow> bool" where
  "graph_ok g n \<longleftrightarrow>
     (\<forall>e \<in> set (gedges g). 0 \<le> fst e \<and> fst e < int n \<and> 0 \<le> snd e \<and> snd e < int n)"

text \<open>
  The label \<open>_first_time\<close> reads for a node of the input graph under the attribute
  \<open>name\<close>: the attribute's value, None when the node lacks it; under \<open>OLDID\<close> it is the
  node's identifier, which the relabelling has just stored there.
\<close>

definition node_label :: "string \<Rightarrow> label \<times> attrs \<Rightarrow> label" where
  "node_label name nd =
     (if name = ''OLDID'' then fst nd
      else (case map_of (snd nd) name of None \<Rightarrow> NoneL | Some x \<Rightarrow> x))"

section \<open>Python lists and dicts\<close>

lemma members_update:
  "members (AList.update k v d) l = (if l = k then v else members d l)"
  by (simp add: members_def update_conv')

lemma group_loop_members:
  "members (group_loop (enumerate_from i a) d) l =
     members d l \<union> {j. i \<le> j \<and> j < i + int (length a) \<and> a ! nat (j - i) = l}"
proof (induction a arbitrary: i d)
  case Nil
  then show ?case by auto
next
  case (Cons x xs)
  have "{j. i \<le> j \<and> j < i + int (length (x # xs)) \<and> (x # xs) ! nat (j - i) = l}
        = (if x = l then {i} else {}) \<union> {j. i + 1 \<le> j \<and> j < i + 1 + int (length xs) \<and> xs ! nat (j - (i + 1)) = l}"
    (is "?A = ?B")
  proof (rule set_eqI)
    fix j
    show "j \<in> ?A \<longleftrightarrow> j \<in> ?B"
    proof (cases "j = i")
      case True
      then show ?thesis by auto
    next
      case False
      have "i < j \<Longrightarrow> nat (j - i) = Suc (nat (j - (i + 1)))" by simp
      with False show ?thesis by auto
    qed
  qed
  then show ?case using Cons.IH [of "i + 1"] by (auto simp: members_update)
qed

lemma group_loop_keys:
  "fst ` set (group_loop (enumerate_from i a) d) = fst ` set d \<union> set a"
proof (induction a arbitrary: i d)
  case Nil
  then show ?case by simp
next
  case (Cons x xs)
  show ?case using Cons.IH [of "i + 1"] by (auto simp: dom_update image_iff)
qed

lemma group_loop_distinct:
  "distinct (map fst d) \<Longrightarrow> distinct (map fst (group_loop (enumerate_from i a) d))"
  by (induction a arbitrary: i d) (simp_all add: distinct_update)

lemma map_of_members:
  "map_of d l = (if l \<in> fst ` set d then Some (members d l) else None)"
  by (auto simp: members_def map_of_eq_None_iff split: option.splits)

lemma preimage_empty_iff: "preimage a l = {} \<longleftrightarrow> l \<notin> set a"
proof
  assume e: "preimage a l = {}"
  show "l \<notin> set a"
  proof
    assume "l \<in> set a"
    then obtain i where "i < length a" "a ! i = l" by (auto simp: in_set_conv_nth)
    then have "int i \<in> preimage a l" by (simp add: preimage_def)
    with e show False by simp
  qed
next
  assume "l \<notin> set a"
  then show "preimage a l = {}" by (auto simp: preimage_def)
qed

lemma group_parts_map:
  "map_of (items (group_parts a)) l = (if preimage a l = {} then None else Some (preimage a l))"
proof -
  have m: "members (items (group_parts a)) l = preimage a l"
    using group_loop_members [of 0 a "[]" l] by (simp add: group_parts_def preimage_def members_def)
  have k: "fst ` set (items (group_parts a)) = set a"
    using group_loop_keys [of 0 a "[]"] by (simp add: group_parts_def)
  show ?thesis by (simp add: map_of_members [of "items (group_parts a)"] m k preimage_empty_iff)
qed

lemma py_index_valid: "0 \<le> k \<Longrightarrow> k < int n \<Longrightarrow> py_index n k = Some (nat k)"
  by (simp add: py_index_def)

lemma list_get_valid: "0 \<le> k \<Longrightarrow> k < int (length xs) \<Longrightarrow> list_get xs k = Inr (xs ! nat k)"
  by (simp add: list_get_def py_index_valid)

lemma list_set_valid: "0 \<le> k \<Longrightarrow> k < int (length xs) \<Longrightarrow> list_set xs k v = Inr (xs[nat k := v])"
  by (simp add: list_set_def py_index_valid)

lemma apply_flips_valid:
  "valid_flips (length a) fl \<Longrightarrow>
   \<exists>a'. apply_flips a fl = Inr a' \<and> length a' = length a \<and>
        (\<forall>i < length a. a' ! i = (case map_of fl (int i) of None \<Rightarrow> a ! i | Some t \<Rightarrow> t))"
proof (induction fl arbitrary: a)
  case Nil
  then show ?case by simp
next
  case (Cons kv fs)
  obtain k v where kv: "kv = (k, v)" by (cases kv)
  from Cons.prems kv have k: "0 \<le> k" "k < int (length a)" and nk: "k \<notin> fst ` set fs"
    and vf: "valid_flips (length (a[nat k := v])) fs"
    by (auto simp: valid_flips_def)
  from Cons.IH [OF vf] obtain a' where a': "apply_flips (a[nat k := v]) fs = Inr a'"
    "length a' = length a"
    "\<forall>i < length a. a' ! i = (case map_of fs (int i) of None \<Rightarrow> a[nat k := v] ! i | Some t \<Rightarrow> t)"
    by auto
  have "\<forall>i < length a. a' ! i = (case map_of (kv # fs) (int i) of None \<Rightarrow> a ! i | Some t \<Rightarrow> t)"
  proof (intro allI impI)
    fix i assume i: "i < length a"
    show "a' ! i = (case map_of (kv # fs) (int i) of None \<Rightarrow> a ! i | Some t \<Rightarrow> t)"
    proof (cases "int i = k")
      case True
      with nk have n: "map_of fs (int i) = None" by (simp add: map_of_eq_None_iff)
      from True have ki: "nat k = i" by auto
      from a'(3) i have "a' ! i = (case map_of fs (int i) of None \<Rightarrow> a[nat k := v] ! i | Some t \<Rightarrow> t)"
        by blast
      with n ki i True show ?thesis by (simp add: kv)
    next
      case False
      then have "nat k \<noteq> i" using k by auto
      with a'(3) i False show ?thesis by (simp add: kv split: option.splits)
    qed
  qed
  with a' k show ?case by (simp add: kv list_set_valid)
qed

lemma apply_flips_flipped:
  assumes "valid_flips (length a) fl"
  shows "apply_flips a fl = Inr (flipped a fl)"
proof -
  from apply_flips_valid [OF assms] obtain a' where a': "apply_flips a fl = Inr a'"
    "length a' = length a"
    "\<forall>i < length a. a' ! i = (case map_of fl (int i) of None \<Rightarrow> a ! i | Some t \<Rightarrow> t)"
    by auto
  have "a' = flipped a fl"
    by (rule nth_equalityI) (auto simp: a' flipped_def split: option.splits)
  with a' show ?thesis by simp
qed

lemma flow_of_update: "flow_of (AList.update k v F) l = (if l = k then v else flow_of F l)"
  by (simp add: flow_of_def update_conv')

lemma flow_of_add_in:
  "flow_in (flow_of (add_in t k F) l) = (if l = t then insert k (flow_in (flow_of F l)) else flow_in (flow_of F l))"
  "flow_out (flow_of (add_in t k F) l) = flow_out (flow_of F l)"
  by (simp_all add: add_in_def flow_of_update)

lemma flow_of_add_out:
  "flow_out (flow_of (add_out t k F) l) = (if l = t then insert k (flow_out (flow_of F l)) else flow_out (flow_of F l))"
  "flow_in (flow_of (add_out t k F) l) = flow_in (flow_of F l)"
  by (simp_all add: add_out_def flow_of_update)

lemma distinct_add: "distinct (map fst F) \<Longrightarrow> distinct (map fst (add_in t k F))"
  "distinct (map fst F) \<Longrightarrow> distinct (map fst (add_out t k F))"
  by (simp_all add: add_in_def add_out_def distinct_update)

lemma flows_loop_valid:
  "\<forall>k \<in> fst ` set fl. 0 \<le> k \<and> k < int (length a) \<Longrightarrow> distinct (map fst F0) \<Longrightarrow>
   \<exists>F. flows_loop a fl F0 = Inr F \<and> distinct (map fst F) \<and>
       (\<forall>l. flow_in (flow_of F l) = flow_in (flow_of F0 l) \<union> entering a fl l \<and>
            flow_out (flow_of F l) = flow_out (flow_of F0 l) \<union> leaving a fl l)"
proof (induction fl arbitrary: F0)
  case Nil
  then show ?case by (simp add: entering_def leaving_def)
next
  case (Cons kv fs)
  obtain k t where kv: "kv = (k, t)" by (cases kv)
  from Cons.prems kv have k: "0 \<le> k" "k < int (length a)"
    and r: "\<forall>k \<in> fst ` set fs. 0 \<le> k \<and> k < int (length a)" by auto
  define F1 where "F1 = (if a ! nat k \<noteq> t then add_out (a ! nat k) k (add_in t k F0) else F0)"
  have d1: "distinct (map fst F1)" using Cons.prems(2) by (simp add: F1_def distinct_add)
  from Cons.IH [OF r d1] obtain F where F: "flows_loop a fs F1 = Inr F" "distinct (map fst F)"
    "\<forall>l. flow_in (flow_of F l) = flow_in (flow_of F1 l) \<union> entering a fs l \<and>
         flow_out (flow_of F l) = flow_out (flow_of F1 l) \<union> leaving a fs l"
    by blast
  have run: "flows_loop a (kv # fs) F0 = Inr F"
    using F(1) k by (simp add: kv list_get_valid F1_def)
  have e: "entering a (kv # fs) l = (if a ! nat k \<noteq> t \<and> l = t then {k} else {}) \<union> entering a fs l" for l
    by (auto simp: entering_def kv)
  have o: "leaving a (kv # fs) l = (if a ! nat k \<noteq> t \<and> l = a ! nat k then {k} else {}) \<union> leaving a fs l" for l
    by (auto simp: leaving_def kv)
  have "flow_in (flow_of F l) = flow_in (flow_of F0 l) \<union> entering a (kv # fs) l \<and>
        flow_out (flow_of F l) = flow_out (flow_of F0 l) \<union> leaving a (kv # fs) l" for l
    using F(3) [rule_format, of l]
    by (auto simp: e o F1_def flow_of_add_in flow_of_add_out)
  with run F(2) show ?case by blast
qed

lemma flows_from_changes_valid:
  assumes "valid_flips (length a) fl"
  shows "\<exists>F. flows_from_changes a fl = Inr F \<and> distinct (map fst F) \<and>
       (\<forall>l. flow_in (flow_of F l) = entering a fl l \<and> flow_out (flow_of F l) = leaving a fl l)"
proof -
  from assms have "\<forall>k \<in> fst ` set fl. 0 \<le> k \<and> k < int (length a)" by (simp add: valid_flips_def)
  from flows_loop_valid [OF this, of "[]"] show ?thesis
    by (simp add: flows_from_changes_def flow_of_def)
qed

lemma members_append_empty:
  "members (d @ [(l, {})]) l' = members d l'"
  by (auto simp: members_def map_add_def split: option.splits)

lemma parts_getitem_members:
  assumes "parts_getitem pp l = Inr (pp', s)"
  shows "s = members (items pp) l \<and> (\<forall>l'. members (items pp') l' = members (items pp) l') \<and>
     is_defaultdict pp' = is_defaultdict pp \<and>
     fst ` set (items pp') = insert l (fst ` set (items pp)) \<and>
     (distinct (map fst (items pp)) \<longrightarrow> distinct (map fst (items pp')))"
proof (cases "map_of (items pp) l")
  case None
  then have nl: "l \<notin> fst ` set (items pp)" by (simp add: map_of_eq_None_iff)
  from assms None have dd: "is_defaultdict pp" and pp': "pp' = pp\<lparr>items := items pp @ [(l, {})]\<rparr>"
    and s: "s = {}"
    by (auto simp: parts_getitem_def split: if_splits)
  from None have "members (items pp) l = {}" by (simp add: members_def)
  with nl show ?thesis by (simp add: pp' s members_append_empty)
next
  case (Some x)
  then have "l \<in> fst ` set (items pp)" by (meson domI domIff map_of_eq_None_iff)
  moreover from assms Some have "pp' = pp" "s = x" by (auto simp: parts_getitem_def)
  ultimately show ?thesis using Some by (auto simp: members_def)
qed

lemma parts_loop_result:
  "parts_loop F pp sp = Inr (pp', sp') \<Longrightarrow> distinct (map fst F) \<Longrightarrow>
     (\<forall>l. map_of sp' l =
        (if l \<in> fst ` set F
         then Some ((members (items pp) l \<union> flow_in (flow_of F l)) - flow_out (flow_of F l))
         else map_of sp l)) \<and>
     (distinct (map fst sp) \<longrightarrow> distinct (map fst sp')) \<and>
     (\<forall>l. members (items pp') l = members (items pp) l) \<and>
     is_defaultdict pp' = is_defaultdict pp \<and>
     fst ` set (items pp') = fst ` set (items pp) \<union> fst ` set F \<and>
     (distinct (map fst (items pp)) \<longrightarrow> distinct (map fst (items pp')))"
proof (induction F arbitrary: pp sp)
  case Nil
  then show ?case by simp
next
  case (Cons pf rest)
  obtain part f where pf: "pf = (part, f)" by (cases pf)
  from Cons.prems(1) pf obtain pp1 s where g: "parts_getitem pp part = Inr (pp1, s)"
    and r: "parts_loop rest pp1 (AList.update part ((s \<union> flow_in f) - flow_out f) sp) = Inr (pp', sp')"
    by (auto split: sum.splits)
  from Cons.prems(2) pf have d: "distinct (map fst rest)" and np: "part \<notin> fst ` set rest" by auto
  note G = parts_getitem_members [OF g]
  note R = Cons.IH [OF r d]
  have fo: "flow_of ((part, f) # rest) l = (if l = part then f else flow_of rest l)" for l
    by (simp add: flow_of_def)
  have "map_of sp' l =
        (if l \<in> fst ` set (pf # rest)
         then Some ((members (items pp) l \<union> flow_in (flow_of (pf # rest) l)) - flow_out (flow_of (pf # rest) l))
         else map_of sp l)" for l
  proof (cases "l = part")
    case True
    from R have "map_of sp' l = (if l \<in> fst ` set rest
         then Some ((members (items pp1) l \<union> flow_in (flow_of rest l)) - flow_out (flow_of rest l))
         else map_of (AList.update part ((s \<union> flow_in f) - flow_out f) sp) l)" by blast
    with True np G show ?thesis by (simp add: fo pf update_conv')
  next
    case False
    from R have "map_of sp' l = (if l \<in> fst ` set rest
         then Some ((members (items pp1) l \<union> flow_in (flow_of rest l)) - flow_out (flow_of rest l))
         else map_of (AList.update part ((s \<union> flow_in f) - flow_out f) sp) l)" by blast
    with False G show ?thesis by (simp add: fo pf update_conv')
  qed
  moreover have "distinct (map fst sp) \<longrightarrow> distinct (map fst sp')"
    using R by (simp add: distinct_update)
  moreover have "\<forall>l. members (items pp') l = members (items pp) l" using R G by simp
  moreover have "is_defaultdict pp' = is_defaultdict pp" using R G by simp
  moreover have "fst ` set (items pp') = fst ` set (items pp) \<union> fst ` set (pf # rest)"
    using R G by (auto simp: pf)
  moreover have "distinct (map fst (items pp)) \<longrightarrow> distinct (map fst (items pp'))" using R G by simp
  ultimately show ?case by blast
qed

lemma parts_loop_succeeds:
  "is_defaultdict pp \<or> fst ` set F \<subseteq> fst ` set (items pp) \<Longrightarrow> \<exists>r. parts_loop F pp sp = Inr r"
proof (induction F arbitrary: pp sp)
  case Nil
  then show ?case by simp
next
  case (Cons pf rest)
  obtain part f where pf: "pf = (part, f)" by (cases pf)
  from Cons.prems pf obtain pp1 s where g: "parts_getitem pp part = Inr (pp1, s)"
    by (cases "map_of (items pp) part")
       (auto simp: parts_getitem_def map_of_eq_None_iff image_iff)
  note G = parts_getitem_members [OF g]
  from Cons.prems G have "is_defaultdict pp1 \<or> fst ` set rest \<subseteq> fst ` set (items pp1)"
    by (auto simp: pf)
  from Cons.IH [OF this] show ?case by (simp add: pf g)
qed

lemma parts_loop_keyerror:
  "\<not> is_defaultdict pp \<Longrightarrow> \<not> fst ` set F \<subseteq> fst ` set (items pp) \<Longrightarrow> parts_loop F pp sp = Inl KeyError"
proof (induction F arbitrary: sp)
  case Nil
  then show ?case by simp
next
  case (Cons pf rest)
  obtain part f where pf: "pf = (part, f)" by (cases pf)
  show ?case
  proof (cases "map_of (items pp) part")
    case None
    with Cons.prems show ?thesis by (simp add: pf parts_getitem_def)
  next
    case (Some s)
    then have "part \<in> fst ` set (items pp)" by (meson domI domIff map_of_eq_None_iff)
    with Cons.prems have "\<not> fst ` set rest \<subseteq> fst ` set (items pp)" by (auto simp: pf)
    from Cons.IH [OF Cons.prems(1) this] Some show ?thesis by (simp add: pf parts_getitem_def)
  qed
qed

lemma prune_map:
  "distinct (map fst sp) \<Longrightarrow>
   map_of (items (prune sp)) l =
     (case map_of sp l of None \<Rightarrow> None | Some s \<Rightarrow> if s = {} then None else Some s)"
proof (induction sp)
  case Nil
  then show ?case by (simp add: prune_def)
next
  case (Cons x xs)
  obtain k v where x: "x = (k, v)" by (cases x)
  from Cons.prems x have "k \<notin> fst ` set xs" "distinct (map fst xs)" by auto
  then have "map_of xs k = None" by (simp add: map_of_eq_None_iff)
  with Cons.IH \<open>distinct (map fst xs)\<close> show ?case
    by (auto simp: prune_def x split: option.splits)
qed

lemma prune_distinct: "distinct (map fst sp) \<Longrightarrow> distinct (map fst (items (prune sp)))"
  by (simp add: prune_def distinct_map_filter)

lemma prune_nonempty: "(l, s) \<in> set (items (prune sp)) \<Longrightarrow> s \<noteq> {}"
  by (auto simp: prune_def)

lemma preimage_flipped:
  assumes "valid_flips (length a) fl"
  shows "preimage (flipped a fl) l = (preimage a l \<union> entering a fl l) - leaving a fl l"
proof (rule set_eqI)
  fix i :: int
  from assms have d: "distinct (map fst fl)"
    and rng: "\<And>k t. (k, t) \<in> set fl \<Longrightarrow> 0 \<le> k \<and> k < int (length a)"
    by (auto simp: valid_flips_def)
  have len: "length (flipped a fl) = length a" by (simp add: flipped_def)
  show "i \<in> preimage (flipped a fl) l \<longleftrightarrow> i \<in> (preimage a l \<union> entering a fl l) - leaving a fl l"
  proof (cases "0 \<le> i \<and> i < int (length a)")
    case False
    with rng show ?thesis by (auto simp: preimage_def len entering_def leaving_def)
  next
    case True
    then have ni: "nat i < length a" "int (nat i) = i" by auto
    have fl_i: "flipped a fl ! nat i = (case map_of fl i of None \<Rightarrow> a ! nat i | Some t \<Rightarrow> t)"
      using ni by (simp add: flipped_def split: option.splits)
    show ?thesis
    proof (cases "map_of fl i")
      case None
      then have "\<And>t. (i, t) \<notin> set fl" by (metis map_of_eq_None_iff image_eqI fst_conv)
      with True None show ?thesis by (auto simp: preimage_def len fl_i entering_def leaving_def)
    next
      case (Some t)
      then have "\<And>t'. (i, t') \<in> set fl \<longleftrightarrow> t' = t" using d
        by (metis map_of_SomeD map_of_is_SomeI option.inject)
      with True Some show ?thesis by (auto simp: preimage_def len fl_i entering_def leaving_def)
    qed
  qed
qed

lemma update_parts_regroups:
  assumes pm: "parts_match (parts par) (assignment par)"
    and vf: "valid_flips (length (assignment par)) fl"
    and up: "update_parts par fl asg = Inr (pp, F, ef, sp)"
  shows "map_of (items sp) = map_of (items (group_parts (flipped (assignment par) fl)))"
proof (rule ext)
  fix l
  let ?a = "assignment par"
  from flows_from_changes_valid [OF vf] obtain F' where F': "flows_from_changes ?a fl = Inr F'"
    "distinct (map fst F')"
    "\<forall>l. flow_in (flow_of F' l) = entering ?a fl l \<and> flow_out (flow_of F' l) = leaving ?a fl l"
    by blast
  from up F' obtain sp0 where lp: "parts_loop F' (parts par) (items (parts par)) = Inr (pp, sp0)"
    and sp: "sp = prune sp0"
    by (auto simp: update_parts_def split: sum.splits)
  note L = parts_loop_result [OF lp F'(2)]
  from pm have d: "distinct (map fst (items (parts par)))"
    and m: "\<And>l. members (items (parts par)) l = preimage ?a l"
    by (auto simp: parts_match_def)
  from L d have d0: "distinct (map fst sp0)" by blast
  let ?X = "(preimage ?a l \<union> entering ?a fl l) - leaving ?a fl l"
  have "map_of sp0 l = None \<and> ?X = {} \<or> map_of sp0 l = Some ?X"
  proof (cases "l \<in> fst ` set F'")
    case True
    with L F'(3) m show ?thesis by simp
  next
    case False
    then have "map_of F' l = None" by (simp add: map_of_eq_None_iff)
    then have "flow_in (flow_of F' l) = {}" "flow_out (flow_of F' l) = {}" by (simp_all add: flow_of_def)
    with F'(3) have e: "entering ?a fl l = {}" "leaving ?a fl l = {}" by auto
    from False L have "map_of sp0 l = map_of (items (parts par)) l" by simp
    with m [of l] e show ?thesis by (auto simp: members_def split: option.splits)
  qed
  then have "map_of (items sp) l = (if ?X = {} then None else Some ?X)"
    unfolding sp prune_map [OF d0] by (elim disjE conjE) simp_all
  then show "map_of (items sp) l = map_of (items (group_parts (flipped ?a fl))) l"
    by (simp add: group_parts_map preimage_flipped [OF vf])
qed

section \<open>The transition\<close>

lemma finish_init_fields:
  assumes "finish_init mec c0 = Inr c"
  shows "graph (view c) = graph (view c0)" "assignment (view c) = assignment (view c0)"
    "parts (view c) = parts (view c0)" "parent (view c) = parent (view c0)"
    "flips (view c) = flips (view c0)" "flows (view c) = flows (view c0)"
    "edge_flows (view c) = edge_flows (view c0)" "updaters c = updaters c0"
    "max_edge_cuts_fn mec (graph (view c0)) (assignment (view c0)) = Inr (max_edge_cuts (view c))"
    "update_loop (updaters c0) (view c0) (map fst (updaters c0)) [] = Inr (cache c)"
  using assms
  by (auto simp: finish_init_def update_def Let_def split: sum.splits)

lemma merge_unfold:
  assumes "merge mec p fl = Inr (p', c)"
  shows "0 < len p \<and> (\<exists>c0. from_parent p (Some fl) = Inr (p', c0) \<and> finish_init mec c0 = Inr c)"
proof (cases "0 < len p")
  case True
  with assms show ?thesis
    by (auto simp: merge_def init_def split: sum.splits)
next
  case False
  with assms show ?thesis
    by (auto simp: merge_def init_def first_time_def split: sum.splits)
qed

lemma from_parent_unfold:
  assumes "from_parent p (Some fl) = Inr (p', c0)"
  shows "\<exists>asg pp F ef sp. apply_flips (assignment (view p)) fl = Inr asg \<and>
           update_parts (view p) fl asg = Inr (pp, F, ef, sp) \<and>
           assignment (view c0) = asg \<and> parts (view c0) = sp \<and> graph (view c0) = graph (view p) \<and>
           updaters c0 = updaters p \<and> cache c0 = [] \<and> max_edge_cuts (view c0) = max_edge_cuts (view p) \<and>
           flips (view c0) = Some fl \<and> flows (view c0) = Some F \<and> edge_flows (view c0) = Some ef \<and>
           parent (view c0) = Some (view p') \<and>
           assignment (view p') = assignment (view p) \<and> parts (view p') = pp \<and>
           graph (view p') = graph (view p) \<and> updaters p' = updaters p \<and> cache p' = cache p \<and>
           max_edge_cuts (view p') = max_edge_cuts (view p) \<and> parent (view p') = parent (view p) \<and>
           flips (view p') = flips (view p) \<and> flows (view p') = flows (view p) \<and>
           edge_flows (view p') = edge_flows (view p)"
  using assms
  by (auto simp: from_parent_def Let_def split: sum.splits)

lemma group_parts_match: "parts_match (group_parts a) a"
proof -
  have "members (items (group_parts a)) l = preimage a l" for l
    using group_loop_members [of 0 a "[]" l] by (simp add: group_parts_def preimage_def members_def)
  moreover have "distinct (map fst (items (group_parts a)))"
    using group_loop_distinct [of "[]" 0 a] by (simp add: group_parts_def)
  ultimately show ?thesis by (simp add: parts_match_def)
qed

lemmas eval_defs =
  create_root_def merge_def init_def first_time_def from_parent_def update_parts_def finish_init_def
  update_def len_def convert_node_labels_to_integers_def node_numbering_def initial_assignment_def
  get_node_attributes_def dict_get_def List.map_filter_def max_edge_cuts_fn_def
  crosses_parts_of_def list_get_def list_set_def py_index_def group_parts_def members_def
  flows_from_changes_def add_in_def add_out_def flow_of_def compute_edge_flows_def
  classify_edge_def parts_getitem_def prune_def Let_def

lemma root4_created: "create_root count_cut (Some g4) (Some ''district'') None = Inr root4"
  by (simp add: create_root_def init_def first_time_def finish_init_def update_def
      convert_node_labels_to_integers_def node_numbering_def initial_assignment_def
      get_node_attributes_def dict_get_def List.map_filter_def max_edge_cuts_fn_def
      crosses_parts_of_def list_get_def py_index_def group_parts_def members_def
      g4_def h4_def root4_def count_cut_def Let_def)

lemma merge4: "merge count_cut root4 flips4 = Inr (root4_after, child4)"
  by (simp add: eval_defs h4_def root4_def root4_after_def child4_def flips4_def count_cut_def)

section \<open>Flow correctness\<close>

text \<open>
  Let the parent's Parts Index agree with its assignment and let the Flip Set have
  NodeIds of the parent as keys. Whenever the transition returns a child, the child's
  assignment is the parent's with every flip applied, and the Parts Index that
  \<open>_update_parts\<close> builds incrementally (parent members, plus the nodes entering, minus the
  nodes leaving, empty parts dropped) is, label by label, the same set of nodes as the
  index that the grouping loop of \<open>_first_time\<close> builds anew from that assignment.
\<close>

lemma flow_update_equals_regrouping:
  assumes "parts_match (parts (view p)) (assignment (view p))"
    and "valid_flips (length (assignment (view p))) fl"
    and "merge mec p fl = Inr (p', c)"
  shows "apply_flips (assignment (view p)) fl = Inr (assignment (view c)) \<and>
         map_of (items (parts (view c))) = map_of (items (group_parts (assignment (view c))))"
proof -
  from merge_unfold [OF assms(3)] obtain c0 where fp: "from_parent p (Some fl) = Inr (p', c0)"
    and fi: "finish_init mec c0 = Inr c" by blast
  from from_parent_unfold [OF fp] obtain asg pp F ef sp where
    af: "apply_flips (assignment (view p)) fl = Inr asg"
    and up: "update_parts (view p) fl asg = Inr (pp, F, ef, sp)"
    and c0: "assignment (view c0) = asg" "parts (view c0) = sp"
    by blast
  from af apply_flips_flipped [OF assms(2)] have asg: "asg = flipped (assignment (view p)) fl" by simp
  from update_parts_regroups [OF assms(1) assms(2) up]
  show ?thesis using af by (simp add: finish_init_fields [OF fi] c0 asg)
qed

lemma flow_update_equals_regrouping_witness:
  "parts_match (parts (view root4)) (assignment (view root4)) \<and>
   valid_flips (length (assignment (view root4))) flips4 \<and>
   merge count_cut root4 flips4 = Inr (root4_after, child4) \<and>
   apply_flips (assignment (view root4)) flips4 = Inr (assignment (view child4)) \<and>
   map_of (items (parts (view child4))) = map_of (items (group_parts (assignment (view child4))))"
proof -
  have "parts (view root4) = group_parts (assignment (view root4))"
    by (simp add: root4_def group_parts_def members_def)
  then have h1: "parts_match (parts (view root4)) (assignment (view root4))"
    by (simp add: group_parts_match)
  have h2: "valid_flips (length (assignment (view root4))) flips4"
    by (simp add: valid_flips_def flips4_def root4_def)
  note h3 = merge4
  from flow_update_equals_regrouping [OF h1 h2 h3] h1 h2 h3 show ?thesis by blast
qed

section \<open>Evaluating the constructors on the concrete Partitions\<close>

lemmas example_defs = h4_def root4_def root4_after_def child4_def flips4_def noop4_def
  root4u_def root4u_after_def child4u_def g2_def root2_def count_cut_def

text \<open>
  Two further calls after the flip \<open>{2: "B", 3: "B"}\<close> on the root: the Flip Set
  \<open>{0: "A"}\<close> on the root, and the Flip Set \<open>{0: "C"}\<close> on the child, which raises
  KeyError because the child's Parts Index is a plain dict without the label \<open>"C"\<close>.
\<close>

lemma merge4_noop: "merge count_cut root4_after [(0, StrL ''A'')] = Inr (root4_after, noop4)"
  by (simp add: eval_defs example_defs)

lemma merge4_child: "merge count_cut child4 [(0, StrL ''C'')] = Inl KeyError"
  by (simp add: eval_defs example_defs)

section \<open>A new label on a child\<close>

text \<open>
  C1, on the code: the child of the scenario has the Parts Index
  \<open>{"A": {0, 1}, "B": {2, 3}}\<close>, a plain dict since line 99. For the Flip Set
  \<open>{0: "C"}\<close> the flipped assignment is \<open>["C", "A", "B", "B"]\<close> and grouping it anew gives
  \<open>{"C": {0}, "A": {1}, "B": {2, 3}}\<close>, but \<open>_update_parts\<close> builds no Parts Index: the
  flows name the label \<open>"C"\<close>, and line 96 reads \<open>self.parent.parts["C"]\<close>, which raises
  KeyError.
\<close>

theorem update_parts_raises_on_new_label:
  "create_root count_cut (Some g4) (Some ''district'') None = Inr root4 \<and>
   merge count_cut root4 [(2, StrL ''B''), (3, StrL ''B'')] = Inr (root4_after, child4) \<and>
   assignment (view child4) = [StrL ''A'', StrL ''A'', StrL ''B'', StrL ''B''] \<and>
   parts (view child4) =
     \<lparr> is_defaultdict = False, items = [(StrL ''A'', {1, 0}), (StrL ''B'', {3, 2})] \<rparr> \<and>
   apply_flips (assignment (view child4)) [(0, StrL ''C'')]
     = Inr [StrL ''C'', StrL ''A'', StrL ''B'', StrL ''B''] \<and>
   flows_from_changes (assignment (view child4)) [(0, StrL ''C'')]
     = Inr [(StrL ''C'', \<lparr> flow_in = {0}, flow_out = {} \<rparr>),
            (StrL ''A'', \<lparr> flow_in = {}, flow_out = {0} \<rparr>)] \<and>
   update_parts (view child4) [(0, StrL ''C'')] [StrL ''C'', StrL ''A'', StrL ''B'', StrL ''B'']
     = Inl KeyError \<and>
   items (group_parts [StrL ''C'', StrL ''A'', StrL ''B'', StrL ''B''])
     = [(StrL ''C'', {0}), (StrL ''A'', {1}), (StrL ''B'', {3, 2})]"
proof -
  have "assignment (view child4) = [StrL ''A'', StrL ''A'', StrL ''B'', StrL ''B'']"
    "parts (view child4) =
       \<lparr> is_defaultdict = False, items = [(StrL ''A'', {1, 0}), (StrL ''B'', {3, 2})] \<rparr>"
    by (simp_all add: child4_def)
  moreover have "apply_flips (assignment (view child4)) [(0, StrL ''C'')]
     = Inr [StrL ''C'', StrL ''A'', StrL ''B'', StrL ''B'']"
    by (simp add: child4_def list_set_def py_index_def)
  moreover have "flows_from_changes (assignment (view child4)) [(0, StrL ''C'')]
     = Inr [(StrL ''C'', \<lparr> flow_in = {0}, flow_out = {} \<rparr>),
            (StrL ''A'', \<lparr> flow_in = {}, flow_out = {0} \<rparr>)]"
    by (simp add: child4_def flows_from_changes_def add_in_def add_out_def flow_of_def
        list_get_def py_index_def)
  moreover have "update_parts (view child4) [(0, StrL ''C'')]
       [StrL ''C'', StrL ''A'', StrL ''B'', StrL ''B''] = Inl KeyError"
    by (simp add: eval_defs example_defs)
  moreover have "items (group_parts [StrL ''C'', StrL ''A'', StrL ''B'', StrL ''B''])
     = [(StrL ''C'', {0}), (StrL ''A'', {1}), (StrL ''B'', {3, 2})]"
    by (simp add: group_parts_def members_def)
  ultimately show ?thesis using root4_created merge4 by (simp add: flips4_def)
qed

text \<open>
  C4, on the code: the same Flip Set \<open>{0: "C"}\<close> references only the NodeId 0, which is
  valid for the four nodes of the child, and the transition does not return a child: it
  raises KeyError.
\<close>

theorem merge_raises_on_valid_node_id:
  "create_root count_cut (Some g4) (Some ''district'') None = Inr root4 \<and>
   merge count_cut root4 [(2, StrL ''B''), (3, StrL ''B'')] = Inr (root4_after, child4) \<and>
   length (assignment (view child4)) = 4 \<and>
   list_get (assignment (view child4)) 0 = Inr (StrL ''A'') \<and>
   merge count_cut child4 [(0, StrL ''C'')] = Inl KeyError"
  using root4_created merge4 merge4_child
  by (simp add: flips4_def child4_def list_get_def py_index_def)

section \<open>Calls that cannot fail\<close>

lemma map_err_succeeds:
  "\<forall>x \<in> set xs. \<exists>y. f x = Inr y \<Longrightarrow> \<exists>ys. map_err f xs = Inr ys \<and> length ys = length xs"
proof (induction xs)
  case Nil
  then show ?case by simp
next
  case (Cons x xs)
  then obtain y ys where "f x = Inr y" "map_err f xs = Inr ys" "length ys = length xs" by auto
  then show ?case by simp
qed

lemma crosses_parts_of_in_range:
  assumes "0 \<le> u" "u < int (length a)" "0 \<le> v" "v < int (length a)"
  shows "crosses_parts_of a (u, v) = Inr (a ! nat u \<noteq> a ! nat v)"
  using assms by (simp add: crosses_parts_of_def list_get_valid)

lemma max_edge_cuts_fn_succeeds:
  assumes "graph_ok g (length a)"
  shows "\<exists>m. max_edge_cuts_fn mec g a = Inr m"
proof -
  have "\<forall>e \<in> set (gedges g). \<exists>y. crosses_parts_of a e = Inr y"
  proof
    fix e assume "e \<in> set (gedges g)"
    with assms have "0 \<le> fst e" "fst e < int (length a)" "0 \<le> snd e" "snd e < int (length a)"
      by (auto simp: graph_ok_def)
    from crosses_parts_of_in_range [OF this] show "\<exists>y. crosses_parts_of a e = Inr y" by simp
  qed
  from map_err_succeeds [OF this] show ?thesis by (auto simp: max_edge_cuts_fn_def)
qed

lemma compute_edge_flows_succeeds:
  assumes "graph_ok g (length old)" "length new = length old"
  shows "\<exists>ef. compute_edge_flows g old new fl = Inr ef"
proof -
  have "\<forall>e \<in> set (filter (\<lambda>(u, v). u \<in> fst ` set fl \<or> v \<in> fst ` set fl) (gedges g)).
          \<exists>y. classify_edge old new e = Inr y"
  proof
    fix e assume "e \<in> set (filter (\<lambda>(u, v). u \<in> fst ` set fl \<or> v \<in> fst ` set fl) (gedges g))"
    with assms have r: "0 \<le> fst e" "fst e < int (length old)" "0 \<le> snd e" "snd e < int (length old)"
      by (auto simp: graph_ok_def)
    from r assms(2) have r': "0 \<le> fst e" "fst e < int (length new)" "0 \<le> snd e" "snd e < int (length new)"
      by simp_all
    from crosses_parts_of_in_range [OF r] crosses_parts_of_in_range [OF r']
    show "\<exists>y. classify_edge old new e = Inr y" by (simp add: classify_edge_def)
  qed
  from map_err_succeeds [OF this] show ?thesis by (auto simp: compute_edge_flows_def)
qed

lemma update_loop_succeeds:
  "set ks \<subseteq> fst ` set ups \<Longrightarrow> \<exists>c. update_loop ups s ks c0 = Inr c"
proof (induction ks arbitrary: c0)
  case Nil
  then show ?case by simp
next
  case (Cons key ks)
  then have sub: "set ks \<subseteq> fst ` set ups" and kin: "key \<in> fst ` set ups" by simp_all
  from kin have "map_of ups key \<noteq> None" by (simp add: map_of_eq_None_iff)
  then obtain f where f: "map_of ups key = Some f" by (cases "map_of ups key") simp_all
  show ?case
  proof (cases "key \<in> fst ` set c0")
    case True
    with Cons.IH [OF sub, of c0] show ?thesis by simp
  next
    case False
    with Cons.IH [OF sub, of "AList.update key (f s) c0"] f show ?thesis by simp
  qed
qed

lemma update_loop_lookup:
  "update_loop ups s ks c0 = Inr c \<Longrightarrow>
   map_of c k = (if k \<in> fst ` set c0 then map_of c0 k
                 else if k \<in> set ks then map_option (\<lambda>f. f s) (map_of ups k) else None)"
proof (induction ks arbitrary: c0)
  case Nil
  then have "c = c0" by simp
  then show ?case by (simp add: map_of_eq_None_iff)
next
  case (Cons key ks)
  show ?case
  proof (cases "key \<in> fst ` set c0")
    case True
    with Cons.prems have "update_loop ups s ks c0 = Inr c" by simp
    from Cons.IH [OF this] True show ?thesis by (cases "k = key") simp_all
  next
    case False
    with Cons.prems obtain f where f: "map_of ups key = Some f"
      and r: "update_loop ups s ks (AList.update key (f s) c0) = Inr c"
      by (cases "map_of ups key") simp_all
    have keys: "fst ` set (AList.update key (f s) c0) = insert key (fst ` set c0)"
      by (simp add: dom_update)
    have look: "map_of (AList.update key (f s) c0) k = (if k = key then Some (f s) else map_of c0 k)"
      by (simp add: update_conv')
    from Cons.IH [OF r] have
      "map_of c k = (if k \<in> insert key (fst ` set c0) then (if k = key then Some (f s) else map_of c0 k)
                     else if k \<in> set ks then map_option (\<lambda>f. f s) (map_of ups k) else None)"
      unfolding keys look .
    with False f show ?thesis by (cases "k = key") simp_all
  qed
qed

lemma update_result:
  "\<exists>c. update p = Inr (p\<lparr>cache := c\<rparr>) \<and>
       (\<forall>k. map_of c k = map_option (\<lambda>f. f (view p)) (map_of (updaters p) k))"
proof -
  have "set (map fst (updaters p)) \<subseteq> fst ` set (updaters p)" by simp
  from update_loop_succeeds [OF this]
  obtain c where c: "update_loop (updaters p) (view p) (map fst (updaters p)) [] = Inr c" ..
  have "map_of c k = map_option (\<lambda>f. f (view p)) (map_of (updaters p) k)" for k
  proof (cases "k \<in> fst ` set (updaters p)")
    case True
    with update_loop_lookup [OF c, of k] show ?thesis by simp
  next
    case False
    then have "map_of (updaters p) k = None" by (simp add: map_of_eq_None_iff)
    with False update_loop_lookup [OF c, of k] show ?thesis by simp
  qed
  then have "\<forall>k. map_of c k = map_option (\<lambda>f. f (view p)) (map_of (updaters p) k)" ..
  moreover from c have "update p = Inr (p\<lparr>cache := c\<rparr>)" by (simp add: update_def)
  ultimately show ?thesis by (intro exI conjI)
qed

lemma finish_init_succeeds:
  assumes "graph_ok (graph (view p)) (length (assignment (view p)))"
  shows "\<exists>q. finish_init mec p = Inr q"
proof -
  from update_result [of p] obtain c where c: "update p = Inr (p\<lparr>cache := c\<rparr>)"
    by (elim exE conjE) (rule that)
  from max_edge_cuts_fn_succeeds [OF assms] obtain m where
    m: "max_edge_cuts_fn mec (graph (view p)) (assignment (view p)) = Inr m" ..
  show ?thesis unfolding finish_init_def by (simp add: c m Let_def)
qed

lemma finish_init_cache:
  assumes "finish_init mec c0 = Inr c"
  shows "map_of (cache c) k = map_option (\<lambda>f. f (view c0)) (map_of (updaters c0) k)"
proof -
  from update_result [of c0] obtain ch where q: "update c0 = Inr (c0\<lparr>cache := ch\<rparr>)"
    "\<forall>k. map_of ch k = map_option (\<lambda>f. f (view c0)) (map_of (updaters c0) k)"
    by (elim exE conjE) (rule that)
  from assms have "cache c = ch" unfolding finish_init_def
    by (auto simp: q(1) Let_def split: sum.splits)
  with q(2) show ?thesis by simp
qed

section \<open>Root construction\<close>

lemma create_root_unfold:
  assumes "create_root mec gr a ups = Inr r"
  shows "\<exists>r0. first_time mec gr a ups = Inr r0 \<and> finish_init mec r0 = Inr r"
  using assms by (auto simp: create_root_def init_def split: sum.splits)

lemma first_time_fields:
  assumes "first_time mec gr a ups = Inr r0"
  shows "cache r0 = []" "updaters r0 = (case ups of None \<Rightarrow> [] | Some u \<Rightarrow> u)"
    "parts (view r0) = group_parts (assignment (view r0))"
    "parent (view r0) = None" "flips (view r0) = None" "flows (view r0) = None"
    "edge_flows (view r0) = None"
    "\<exists>g0. gr = Some g0 \<and> graph (view r0) = convert_node_labels_to_integers g0 ''OLDID'' \<and>
           assignment (view r0) = initial_assignment (graph (view r0)) (length (gnodes g0)) a"
  using assms by (auto simp: first_time_def Let_def split: option.splits sum.splits)

lemma map_of_absent: "k \<notin> fst ` set xs \<Longrightarrow> map_of xs k = None"
  by (simp add: map_of_eq_None_iff)

section \<open>Cached access\<close>

text \<open>
  C6. \<open>__getitem__\<close> on a key that is neither in the Partition's cache nor in its Updater
  Registry fails: the registry lookup \<open>self.updaters[key]\<close> raises KeyError, the exception
  that stands for the spec's UnknownUpdaterError. In particular every key (so also
  \<open>"population"\<close>) fails on a root built with no registry or with an empty one.
\<close>

theorem unknown_key_raises:
  "(key \<notin> fst ` set (cache p) \<and> key \<notin> fst ` set (updaters p) \<longrightarrow> getitem p key = Inl KeyError) \<and>
   (create_root mec gr a None = Inr r \<or> create_root mec gr a (Some []) = Inr r
      \<longrightarrow> getitem r key = Inl KeyError)"
proof (intro conjI impI)
  assume "key \<notin> fst ` set (cache p) \<and> key \<notin> fst ` set (updaters p)"
  then show "getitem p key = Inl KeyError" by (simp add: getitem_def map_of_absent)
next
  assume "create_root mec gr a None = Inr r \<or> create_root mec gr a (Some []) = Inr r"
  then obtain ups where u: "ups = None \<or> ups = Some []" and cr: "create_root mec gr a ups = Inr r"
    by blast
  from create_root_unfold [OF cr] obtain r0 where r0: "first_time mec gr a ups = Inr r0"
    and fi: "finish_init mec r0 = Inr r" by blast
  from u first_time_fields(2) [OF r0] have e: "updaters r0 = []" by auto
  from finish_init_cache [OF fi, of key] e have "map_of (cache r) key = None" by simp
  moreover from finish_init_fields(8) [OF fi] e have "updaters r = []" by simp
  ultimately show "getitem r key = Inl KeyError" by (simp add: getitem_def)
qed

theorem unknown_key_raises_witness:
  "''population'' \<notin> fst ` set (cache root4) \<and> ''population'' \<notin> fst ` set (updaters root4) \<and>
   create_root count_cut (Some g4) (Some ''district'') None = Inr root4 \<and>
   getitem root4 ''population'' = Inl KeyError"
proof -
  have h: "''population'' \<notin> fst ` set (cache root4) \<and> ''population'' \<notin> fst ` set (updaters root4)"
    by (simp add: root4_def)
  from unknown_key_raises [of "''population''" root4 count_cut "Some g4" "Some ''district''" root4]
    h root4_created
  show ?thesis by simp
qed

text \<open>
  C3, as the code has it. The child's cache is not inherited and is not empty either:
  \<open>_update\<close> runs in the constructor and stores, for every key of the registry, the
  updater's value on the child as the child is at that moment: its own assignment, Parts
  Index, parent, flips and flows, and in \<open>max_edge_cuts\<close> still the parent's value (line
  76), which line 34 replaces only after \<open>_update\<close>. The parent's cache is left as it was, and a later
  \<open>__getitem__\<close> of a cached key returns the stored value and changes nothing.
\<close>

theorem child_cache_is_recomputed:
  assumes "merge mec p fl = Inr (p', c)"
  shows "cache p' = cache p \<and> updaters c = updaters p \<and>
         (\<forall>key. map_of (cache c) key =
                  map_option (\<lambda>f. f (view_during_update (view c) (max_edge_cuts (view p))))
                    (map_of (updaters c) key)) \<and>
         (\<forall>key v. map_of (cache c) key = Some v \<longrightarrow> getitem c key = Inr (c, v))"
proof -
  from merge_unfold [OF assms] obtain c0 where fp: "from_parent p (Some fl) = Inr (p', c0)"
    and fi: "finish_init mec c0 = Inr c" by blast
  from from_parent_unfold [OF fp] have P: "cache p' = cache p" "updaters c0 = updaters p"
    "max_edge_cuts (view c0) = max_edge_cuts (view p)" by auto
  note F = finish_init_fields [OF fi]
  have v: "view c0 = view_during_update (view c) (max_edge_cuts (view p))"
    by (cases "view c0") (use F P(3) in \<open>simp add: view_during_update_def\<close>)
  have "map_of (cache c) key =
          map_option (\<lambda>f. f (view_during_update (view c) (max_edge_cuts (view p)))) (map_of (updaters c) key)" for key
    using finish_init_cache [OF fi, of key] by (simp add: v F(8))
  moreover have "map_of (cache c) key = Some v \<longrightarrow> getitem c key = Inr (c, v)" for key v
    by (simp add: getitem_def)
  ultimately show ?thesis using P F(8) by simp
qed

lemma merge4u: "merge count_cut root4u flips4 = Inr (root4u_after, child4u)"
  by (simp add: eval_defs example_defs nparts_def cuts_def)

theorem child_cache_is_recomputed_witness:
  "merge count_cut root4u flips4 = Inr (root4u_after, child4u) \<and>
   cache root4u_after = cache root4u \<and>
   updaters child4u = updaters root4u \<and>
   map_of (cache child4u) ''nparts'' =
     Some (nparts (view_during_update (view child4u) (max_edge_cuts (view root4u)))) \<and>
   map_of (cache child4u) ''cuts'' =
     Some (cuts (view_during_update (view child4u) (max_edge_cuts (view root4u)))) \<and>
   map_of (cache root4u) ''nparts'' = Some 1 \<and>
   map_of (cache child4u) ''nparts'' = Some 2 \<and>
   max_edge_cuts (view root4u) = 0 \<and>
   map_of (cache child4u) ''cuts'' = Some 0 \<and>
   max_edge_cuts (view child4u) = 1 \<and>
   getitem child4u ''nparts'' = Inr (child4u, 2)"
proof -
  note m = merge4u
  have u: "map_of (updaters child4u) ''nparts'' = Some nparts"
    "map_of (updaters child4u) ''cuts'' = Some cuts" by (simp_all add: child4u_def)
  have c: "map_of (cache child4u) ''nparts'' = Some 2" "map_of (cache child4u) ''cuts'' = Some 0"
    "map_of (cache root4u) ''nparts'' = Some 1"
    "max_edge_cuts (view root4u) = 0" "max_edge_cuts (view child4u) = 1"
    by (simp_all add: child4u_def child4_def root4u_def root4_def)
  from child_cache_is_recomputed [OF m] have
    "cache root4u_after = cache root4u"
    "updaters child4u = updaters root4u"
    "map_of (cache child4u) ''nparts'' =
       map_option (\<lambda>f. f (view_during_update (view child4u) (max_edge_cuts (view root4u))))
         (map_of (updaters child4u) ''nparts'')"
    "map_of (cache child4u) ''cuts'' =
       map_option (\<lambda>f. f (view_during_update (view child4u) (max_edge_cuts (view root4u))))
         (map_of (updaters child4u) ''cuts'')"
    "map_of (cache child4u) ''nparts'' = Some 2 \<longrightarrow> getitem child4u ''nparts'' = Inr (child4u, 2)"
    by blast+
  with m u c show ?thesis by simp
qed

text \<open>
  C3, as the spec states it, fails: the root of the scenario built with the registry
  \<open>{"nparts": nparts, "cuts": cuts}\<close> has, by the flip \<open>{2: "B", 3: "B"}\<close>, a child whose
  cache already holds both keys when the constructor returns, before any
  \<open>__getitem__\<close>. The values are the child's own: \<open>nparts\<close> is 2 where the parent's cache
  has 1.
\<close>

theorem child_cache_filled_at_construction:
  "create_root count_cut (Some g4) (Some ''district'')
     (Some [(''nparts'', nparts), (''cuts'', cuts)]) = Inr root4u \<and>
   cache root4u = [(''nparts'', 1), (''cuts'', 0)] \<and>
   merge count_cut root4u [(2, StrL ''B''), (3, StrL ''B'')] = Inr (root4u_after, child4u) \<and>
   cache child4u = [(''nparts'', 2), (''cuts'', 0)]"
proof -
  have "create_root count_cut (Some g4) (Some ''district'')
          (Some [(''nparts'', nparts), (''cuts'', cuts)]) = Inr root4u"
    by (simp add: eval_defs example_defs g4_def nparts_def cuts_def)
  moreover have "cache root4u = [(''nparts'', 1), (''cuts'', 0)]" by (simp add: root4u_def)
  moreover have "cache child4u = [(''nparts'', 2), (''cuts'', 0)]" by (simp add: child4u_def)
  ultimately show ?thesis using merge4u by (simp add: flips4_def)
qed

section \<open>The end-to-end scenario\<close>

text \<open>
  C9. The root over the path graph 0 - 1 - 2 - 3 with every node in part \<open>"A"\<close> has no
  crossing edge; the flip \<open>{2: "B", 3: "B"}\<close> yields the child with the Parts Index
  \<open>{"A": {0, 1}, "B": {2, 3}}\<close>, where the edge (1, 2) crosses parts and the edges (0, 1)
  and (2, 3) do not. On any Partition and any two nodes, \<open>crosses_parts\<close> says whether
  their labels differ.
\<close>

theorem end_to_end_scenario:
  "create_root count_cut (Some g4) (Some ''district'') None = Inr root4 \<and>
   assignment (view root4) = [StrL ''A'', StrL ''A'', StrL ''A'', StrL ''A''] \<and>
   crosses_parts root4 (0, 1) = Inr False \<and> crosses_parts root4 (1, 2) = Inr False \<and>
   crosses_parts root4 (2, 3) = Inr False \<and>
   merge count_cut root4 [(2, StrL ''B''), (3, StrL ''B'')] = Inr (root4_after, child4) \<and>
   items (parts (view child4)) = [(StrL ''A'', {0, 1}), (StrL ''B'', {2, 3})] \<and>
   crosses_parts child4 (1, 2) = Inr True \<and> crosses_parts child4 (0, 1) = Inr False \<and>
   crosses_parts child4 (2, 3) = Inr False \<and>
   (0 \<le> u \<and> u < int (length (assignment (view p))) \<and> 0 \<le> v \<and> v < int (length (assignment (view p)))
      \<longrightarrow> crosses_parts p (u, v) = Inr (assignment (view p) ! nat u \<noteq> assignment (view p) ! nat v))"
proof -
  have "crosses_parts root4 (0, 1) = Inr False" "crosses_parts root4 (1, 2) = Inr False"
    "crosses_parts root4 (2, 3) = Inr False"
    by (simp_all add: crosses_parts_def crosses_parts_of_def list_get_def py_index_def root4_def)
  moreover have "crosses_parts child4 (1, 2) = Inr True" "crosses_parts child4 (0, 1) = Inr False"
    "crosses_parts child4 (2, 3) = Inr False"
    by (simp_all add: crosses_parts_def crosses_parts_of_def list_get_def py_index_def child4_def)
  moreover have "items (parts (view child4)) = [(StrL ''A'', {0, 1}), (StrL ''B'', {2, 3})]"
    by (simp add: child4_def insert_commute)
  moreover have "assignment (view root4) = [StrL ''A'', StrL ''A'', StrL ''A'', StrL ''A'']"
    by (simp add: root4_def)
  moreover have "merge count_cut root4 [(2, StrL ''B''), (3, StrL ''B'')] = Inr (root4_after, child4)"
    using merge4 by (simp add: flips4_def)
  moreover have "0 \<le> u \<and> u < int (length (assignment (view p))) \<and> 0 \<le> v \<and> v < int (length (assignment (view p)))
      \<longrightarrow> crosses_parts p (u, v) = Inr (assignment (view p) ! nat u \<noteq> assignment (view p) ! nat v)"
    by (simp add: crosses_parts_def crosses_parts_of_in_range)
  ultimately show ?thesis using root4_created by simp
qed

theorem end_to_end_scenario_witness:
  "(0::int) \<le> 1 \<and> 1 < int (length (assignment (view child4))) \<and> (0::int) \<le> 2 \<and>
   2 < int (length (assignment (view child4))) \<and>
   crosses_parts child4 (1, 2) = Inr (assignment (view child4) ! nat 1 \<noteq> assignment (view child4) ! nat 2) \<and>
   assignment (view child4) ! nat 1 = StrL ''A'' \<and> assignment (view child4) ! nat 2 = StrL ''B''"
proof -
  have h: "(0::int) \<le> 1 \<and> 1 < int (length (assignment (view child4))) \<and> (0::int) \<le> 2 \<and>
   2 < int (length (assignment (view child4)))" by (simp add: child4_def)
  have n: "nat 2 = Suc (Suc 0)" by simp
  have "assignment (view child4) ! nat 1 = StrL ''A''" "assignment (view child4) ! nat 2 = StrL ''B''"
    by (simp_all add: child4_def n)
  with end_to_end_scenario [of 1 child4 2] h show ?thesis by simp
qed

section \<open>assignment\_by\_nodeid\<close>

text \<open>
  C10, on the code: \<open>assignment_by_nodeid\<close> never returns. It reads the unbound name
  \<open>graph\<close> where \<open>self.graph\<close> is meant, and raises NameError on every Partition.
\<close>

theorem assignment_by_nodeid_raises: "assignment_by_nodeid p = Inl NameError"
  by (simp add: assignment_by_nodeid_def global_graph_def module_globals_def)

section \<open>Empty parts on a root\<close>

text \<open>
  C2, on the code: the root of the scenario has the single part \<open>"A"\<close>. After the flip
  \<open>{2: "B", 3: "B"}\<close> the root's own Parts Index holds the label \<open>"B"\<close> with an empty
  member set: line 96 reads \<open>self.parent.parts[part]\<close>, and the root's index is a
  defaultdict, which stores an empty set under a key it did not have.
\<close>

theorem root_gains_empty_part:
  "create_root count_cut (Some g4) (Some ''district'') None = Inr root4 \<and>
   merge count_cut root4 [(2, StrL ''B''), (3, StrL ''B'')] = Inr (root4_after, child4) \<and>
   map_of (items (parts (view root4_after))) (StrL ''B'') = Some {}"
  using root4_created merge4 by (simp add: root4_after_def flips4_def)

text \<open>
  C7, on the code: the same call changes the parent. The root's Parts Index has one entry
  before the flip \<open>{2: "B", 3: "B"}\<close> and two after it, so that \<open>len(root)\<close> goes from
  1 to 2.
\<close>

theorem merge_changes_root_parts:
  "create_root count_cut (Some g4) (Some ''district'') None = Inr root4 \<and>
   merge count_cut root4 [(2, StrL ''B''), (3, StrL ''B'')] = Inr (root4_after, child4) \<and>
   items (parts (view root4)) = [(StrL ''A'', {3, 2, 1, 0})] \<and>
   items (parts (view root4_after)) = [(StrL ''A'', {3, 2, 1, 0}), (StrL ''B'', {})] \<and>
   len root4 = 1 \<and> len root4_after = 2"
  using root4_created merge4 by (simp add: root4_def root4_after_def len_def flips4_def)

text \<open>
  C8, on the code: on the root as that call leaves it, node 0 still has label \<open>"A"\<close>, and
  the Flip Set \<open>{0: "A"}\<close> maps it to this label. The child's Parts Index is
  \<open>{"A": {0, 1, 2, 3}}\<close>, the parent's is \<open>{"A": {0, 1, 2, 3}, "B": set()}\<close>: they are
  not identical.
\<close>

theorem noop_flip_changes_parts:
  "create_root count_cut (Some g4) (Some ''district'') None = Inr root4 \<and>
   merge count_cut root4 [(2, StrL ''B''), (3, StrL ''B'')] = Inr (root4_after, child4) \<and>
   list_get (assignment (view root4_after)) 0 = Inr (StrL ''A'') \<and>
   merge count_cut root4_after [(0, StrL ''A'')] = Inr (root4_after, noop4) \<and>
   items (parts (view root4_after)) = [(StrL ''A'', {3, 2, 1, 0}), (StrL ''B'', {})] \<and>
   items (parts (view noop4)) = [(StrL ''A'', {3, 2, 1, 0})]"
  using root4_created merge4 merge4_noop
  by (simp add: root4_after_def noop4_def list_get_def py_index_def flips4_def)

section \<open>The initial assignment\<close>

lemma enumerate_from_range:
  "(i, x) \<in> set (enumerate_from k xs) \<Longrightarrow> k \<le> i \<and> i < k + int (length xs)"
proof (induction xs arbitrary: k)
  case Nil
  then show ?case by simp
next
  case (Cons y ys)
  from Cons.prems have "(i = k \<and> x = y) \<or> (i, x) \<in> set (enumerate_from (k + 1) ys)" by simp
  then show ?case
  proof
    assume "i = k \<and> x = y"
    then show ?thesis by simp
  next
    assume "(i, x) \<in> set (enumerate_from (k + 1) ys)"
    from Cons.IH [OF this] show ?thesis by simp
  qed
qed

lemma length_enumerate_from: "length (enumerate_from k xs) = length xs"
  by (induction xs arbitrary: k) simp_all

lemma node_numbering_range:
  assumes "map_of (node_numbering g) u = Some i"
  shows "0 \<le> i \<and> i < int (length (gnodes g))"
proof -
  from map_of_SomeD [OF assms] obtain j v d where "(j, (v, d)) \<in> set (enumerate_from 0 (gnodes g))"
    and "i = j"
    by (auto simp: node_numbering_def)
  with enumerate_from_range [of j "(v, d)" 0 "gnodes g"] show ?thesis by simp
qed

lemma convert_graph_ok:
  "graph_ok (convert_node_labels_to_integers g name) (length (gnodes g))"
proof -
  have "0 \<le> fst e \<and> fst e < int (length (gnodes g)) \<and> 0 \<le> snd e \<and> snd e < int (length (gnodes g))"
    if "e \<in> set (gedges (convert_node_labels_to_integers g name))" for e
  proof -
    from that obtain u v where
      "(case (map_of (node_numbering g) u, map_of (node_numbering g) v) of
          (Some i, Some j) \<Rightarrow> Some (i, j) | _ \<Rightarrow> None) = Some e"
      by (auto simp: convert_node_labels_to_integers_def List.map_filter_def)
    then obtain i j where "map_of (node_numbering g) u = Some i" "map_of (node_numbering g) v = Some j"
      "e = (i, j)"
      by (auto split: option.splits)
    with node_numbering_range [of g u i] node_numbering_range [of g v j] show ?thesis by simp
  qed
  then show ?thesis unfolding graph_ok_def by blast
qed

lemma length_initial_assignment: "length (initial_assignment g n a) = n"
  by (simp add: initial_assignment_def split: option.splits)

lemma create_root_succeeds: "\<exists>r. create_root mec (Some g) a ups = Inr r"
proof -
  let ?g = "convert_node_labels_to_integers g ''OLDID''"
  let ?a = "initial_assignment ?g (length (gnodes g)) a"
  have ok: "graph_ok ?g (length ?a)" by (simp add: length_initial_assignment convert_graph_ok)
  from max_edge_cuts_fn_succeeds [OF ok] obtain m where m: "max_edge_cuts_fn mec ?g ?a = Inr m" ..
  let ?r0 = "\<lparr> view = PState ?g ?a (group_parts ?a) None None None None m,
                 updaters = (case ups of None \<Rightarrow> [] | Some u \<Rightarrow> u), cache = [] \<rparr>"
  have ft: "first_time mec (Some g) a ups = Inr ?r0" by (simp add: first_time_def m Let_def)
  have "graph_ok (graph (view ?r0)) (length (assignment (view ?r0)))" using ok by simp
  from finish_init_succeeds [OF this] obtain r where "finish_init mec ?r0 = Inr r" ..
  with ft show ?thesis by (simp add: create_root_def init_def)
qed

lemma attribute_lookup:
  "map_of (List.map_filter (\<lambda>(v, d). map_option (Pair v) (map_of d name))
             (map (\<lambda>(i, (v, d)). (i, AList.update ''OLDID'' v d)) (enumerate_from k xs))) j =
   (if k \<le> j \<and> j < k + int (length xs)
    then map_of (AList.update ''OLDID'' (fst (xs ! nat (j - k))) (snd (xs ! nat (j - k)))) name
    else None)"
proof (induction xs arbitrary: k)
  case Nil
  show ?case by (auto simp: List.map_filter_def)
next
  case (Cons x xs)
  obtain v d where x: "x = (v, d)" by (cases x)
  let ?f = "\<lambda>(v, d). map_option (Pair v) (map_of d name)"
  let ?h = "\<lambda>(i, (v, d)). (i, AList.update ''OLDID'' v d)"
  have step: "List.map_filter ?f (map ?h (enumerate_from k (x # xs))) =
    (case map_of (AList.update ''OLDID'' v d) name of
       None \<Rightarrow> List.map_filter ?f (map ?h (enumerate_from (k + 1) xs))
     | Some y \<Rightarrow> (k, y) # List.map_filter ?f (map ?h (enumerate_from (k + 1) xs)))"
    by (simp add: x map_filter_simps split: option.splits)
  note IH = Cons.IH [of "k + 1"]
  show ?case
  proof (cases "j = k")
    case True
    have none: "map_of (List.map_filter ?f (map ?h (enumerate_from (k + 1) xs))) j = None"
      using IH True by simp
    show ?thesis unfolding step using True none by (simp add: x split: option.splits)
  next
    case False
    have "k < j \<Longrightarrow> (x # xs) ! nat (j - k) = xs ! nat (j - (k + 1))"
      by (simp add: nth_Cons' nat_diff_distrib' flip: diff_diff_eq)
    with False show ?thesis unfolding step
      by (auto simp: IH split: option.splits)
  qed
qed

lemma initial_assignment_labels:
  assumes "name \<noteq> []"
  shows "initial_assignment (convert_node_labels_to_integers g ''OLDID'') (length (gnodes g)) (Some name)
         = map (node_label name) (gnodes g)"
proof (rule nth_equalityI)
  show "length (initial_assignment (convert_node_labels_to_integers g ''OLDID'') (length (gnodes g)) (Some name))
        = length (map (node_label name) (gnodes g))"
    by (simp add: length_initial_assignment)
next
  fix i assume "i < length (initial_assignment (convert_node_labels_to_integers g ''OLDID'') (length (gnodes g)) (Some name))"
  then have i: "i < length (gnodes g)" by (simp add: length_initial_assignment)
  have "dict_get (get_node_attributes (convert_node_labels_to_integers g ''OLDID'') name) (int i)
        = node_label name (gnodes g ! i)"
    using i attribute_lookup [of name 0 "gnodes g" "int i"]
    by (simp add: dict_get_def get_node_attributes_def convert_node_labels_to_integers_def
        node_label_def update_conv' split: option.splits)
  with i assms show "initial_assignment (convert_node_labels_to_integers g ''OLDID'') (length (gnodes g)) (Some name) ! i
        = map (node_label name) (gnodes g) ! i"
    by (simp add: initial_assignment_def)
qed

text \<open>
  C5, as the code has it. Given a graph and a non-empty attribute name, root construction
  does not fail: it returns a Partition in which every node carries the value of that
  attribute, and the label None when the node has no such attribute.
\<close>

theorem root_labels_from_attribute:
  assumes "name \<noteq> []"
  shows "\<exists>r. create_root mec (Some g) (Some name) ups = Inr r \<and>
             assignment (view r) = map (node_label name) (gnodes g)"
proof -
  from create_root_succeeds obtain r where r: "create_root mec (Some g) (Some name) ups = Inr r" ..
  from create_root_unfold [OF r] obtain r0 where r0: "first_time mec (Some g) (Some name) ups = Inr r0"
    and fi: "finish_init mec r0 = Inr r" by blast
  from first_time_fields(8) [OF r0] have
    "assignment (view r0) = initial_assignment (convert_node_labels_to_integers g ''OLDID'') (length (gnodes g)) (Some name)"
    by auto
  with initial_assignment_labels [OF assms] finish_init_fields(2) [OF fi] r show ?thesis by simp
qed

theorem root_labels_from_attribute_witness:
  "''district'' \<noteq> [] \<and>
   create_root count_cut (Some g2) (Some ''district'') None = Inr root2 \<and>
   assignment (view root2) = map (node_label ''district'') (gnodes g2) \<and>
   map (node_label ''district'') (gnodes g2) = [StrL ''A'', NoneL]"
proof -
  have h: "''district'' \<noteq> []" by simp
  have c: "create_root count_cut (Some g2) (Some ''district'') None = Inr (root2 :: (nat, nat) partition)"
    by (simp add: eval_defs example_defs)
  from root_labels_from_attribute [OF h, of count_cut g2 "None :: (string \<times> (nat pstate \<Rightarrow> nat)) list option"] c
  have "assignment (view root2) = map (node_label ''district'') (gnodes g2)" by simp
  moreover have "map (node_label ''district'') (gnodes g2) = [StrL ''A'', NoneL]"
    by (simp add: node_label_def g2_def)
  ultimately show ?thesis using h c by simp
qed

text \<open>
  C5, as the spec states it, fails: of the two nodes of \<open>g2\<close> only the first has the
  attribute \<open>district\<close>, and the root is built all the same, its second node labelled None.
\<close>

theorem missing_label_gives_None:
  "create_root count_cut (Some g2) (Some ''district'') None = Inr root2 \<and>
   assignment (view root2) = [StrL ''A'', NoneL]"
  by (simp add: eval_defs example_defs)

section \<open>When the transition fails and when it returns\<close>

lemma list_set_length: "list_set a k v = Inr a' \<Longrightarrow> length a' = length a"
  by (auto simp: list_set_def split: option.splits)

lemma apply_flips_index_error:
  "\<exists>k \<in> fst ` set fl. k < - int (length a) \<or> int (length a) \<le> k \<Longrightarrow>
   apply_flips a fl = Inl IndexError"
proof (induction fl arbitrary: a)
  case Nil
  then show ?case by simp
next
  case (Cons kv fs)
  obtain k v where kv: "kv = (k, v)" by (cases kv)
  show ?case
  proof (cases "py_index (length a) k")
    case None
    then show ?thesis by (simp add: kv list_set_def)
  next
    case (Some i)
    then have ok: "\<not> (k < - int (length a) \<or> int (length a) \<le> k)"
      by (auto simp: py_index_def split: if_splits)
    from Some have ls: "list_set a k v = Inr (a[i := v])" by (simp add: list_set_def)
    from Cons.prems ok kv have "\<exists>k \<in> fst ` set fs. k < - int (length (a[i := v])) \<or> int (length (a[i := v])) \<le> k"
      by auto
    from Cons.IH [OF this] ls show ?thesis by (simp add: kv)
  qed
qed

lemma add_keys:
  "fst ` set (add_in l k F) = insert l (fst ` set F)"
  "fst ` set (add_out l k F) = insert l (fst ` set F)"
  by (simp_all add: add_in_def add_out_def dom_update)

lemma flows_loop_keys:
  "\<forall>k \<in> fst ` set fl. 0 \<le> k \<and> k < int (length a) \<Longrightarrow> flows_loop a fl F0 = Inr F \<Longrightarrow>
   fst ` set F \<subseteq> fst ` set F0 \<union> snd ` set fl \<union> set a"
proof (induction fl arbitrary: F0)
  case Nil
  then show ?case by auto
next
  case (Cons kv fs)
  obtain k t where kv: "kv = (k, t)" by (cases kv)
  from Cons.prems kv have k: "0 \<le> k" "k < int (length a)"
    and r: "\<forall>k \<in> fst ` set fs. 0 \<le> k \<and> k < int (length a)" by auto
  define F1 where "F1 = (if a ! nat k \<noteq> t then add_out (a ! nat k) k (add_in t k F0) else F0)"
  from Cons.prems(2) k have run: "flows_loop a fs F1 = Inr F"
    by (simp add: kv list_get_valid F1_def)
  from k have src: "a ! nat k \<in> set a" by simp
  have f1: "fst ` set F1 \<subseteq> insert (a ! nat k) (insert t (fst ` set F0))"
    by (cases "a ! nat k = t") (simp_all add: F1_def add_keys subset_insertI2)
  have sn: "snd ` set (kv # fs) = insert t (snd ` set fs)" by (simp add: kv)
  show ?case
  proof
    fix l assume "l \<in> fst ` set F"
    with Cons.IH [OF r run] have "l \<in> fst ` set F1 \<or> l \<in> snd ` set fs \<or> l \<in> set a" by blast
    with f1 have "l = a ! nat k \<or> l = t \<or> l \<in> fst ` set F0 \<or> l \<in> snd ` set fs \<or> l \<in> set a"
      by blast
    with src show "l \<in> fst ` set F0 \<union> snd ` set (kv # fs) \<union> set a" unfolding sn by blast
  qed
qed

lemma parts_match_keys:
  assumes "parts_match d a" "l \<in> set a"
  shows "l \<in> fst ` set (items d)"
proof (rule ccontr)
  assume "l \<notin> fst ` set (items d)"
  then have "members (items d) l = {}" by (simp add: members_def map_of_absent)
  with assms(1) have "preimage a l = {}" by (simp add: parts_match_def)
  with assms(2) show False by (simp add: preimage_empty_iff)
qed

lemma length_flipped: "length (flipped a fl) = length a"
  by (simp add: flipped_def)

lemma update_parts_succeeds:
  assumes vf: "valid_flips (length (assignment par)) fl"
    and pm: "parts_match (parts par) (assignment par)"
    and ok: "graph_ok (graph par) (length (assignment par))"
    and dd: "is_defaultdict (parts par) \<or> snd ` set fl \<subseteq> fst ` set (items (parts par))"
  shows "\<exists>r. update_parts par fl (flipped (assignment par) fl) = Inr r"
proof -
  let ?a = "assignment par"
  from flows_from_changes_valid [OF vf] obtain F where F: "flows_from_changes ?a fl = Inr F"
    by blast
  from vf have rng: "\<forall>k \<in> fst ` set fl. 0 \<le> k \<and> k < int (length ?a)" by (simp add: valid_flips_def)
  from flows_loop_keys [OF rng, of "[]" F] F have keys: "fst ` set F \<subseteq> snd ` set fl \<union> set ?a"
    by (simp add: flows_from_changes_def)
  from compute_edge_flows_succeeds [OF ok length_flipped, of fl] obtain ef where
    ef: "compute_edge_flows (graph par) ?a (flipped ?a fl) fl = Inr ef" by blast
  have "is_defaultdict (parts par) \<or> fst ` set F \<subseteq> fst ` set (items (parts par))"
  proof (cases "is_defaultdict (parts par)")
    case True
    then show ?thesis by simp
  next
    case False
    with dd have s: "snd ` set fl \<subseteq> fst ` set (items (parts par))" by simp
    have "l \<in> fst ` set (items (parts par))" if "l \<in> fst ` set F" for l
    proof -
      from that keys have "l \<in> snd ` set fl \<or> l \<in> set ?a" by blast
      with s parts_match_keys [OF pm] show ?thesis by blast
    qed
    then show ?thesis by blast
  qed
  from parts_loop_succeeds [OF this] obtain r where
    r: "parts_loop F (parts par) (items (parts par)) = Inr r" ..
  obtain pp sp where "r = (pp, sp)" by (cases r)
  with r F ef show ?thesis by (simp add: update_parts_def)
qed

lemma merge_succeeds:
  assumes len: "0 < len p"
    and vf: "valid_flips (length (assignment (view p))) fl"
    and pm: "parts_match (parts (view p)) (assignment (view p))"
    and ok: "graph_ok (graph (view p)) (length (assignment (view p)))"
    and dd: "is_defaultdict (parts (view p)) \<or> snd ` set fl \<subseteq> fst ` set (items (parts (view p)))"
  shows "\<exists>p' c. merge mec p fl = Inr (p', c)"
proof -
  let ?a = "assignment (view p)"
  from update_parts_succeeds [OF vf pm ok dd] obtain r where
    r: "update_parts (view p) fl (flipped ?a fl) = Inr r" ..
  obtain pp F ef sp where "r = (pp, F, ef, sp)" by (cases r)
  with r have up: "update_parts (view p) fl (flipped ?a fl) = Inr (pp, F, ef, sp)" by simp
  from apply_flips_flipped [OF vf] have af: "apply_flips ?a fl = Inr (flipped ?a fl)" .
  obtain p' c0 where fp: "from_parent p (Some fl) = Inr (p', c0)"
    by (simp add: from_parent_def af up Let_def)
  from from_parent_unfold [OF fp] af have "graph (view c0) = graph (view p)"
    "assignment (view c0) = flipped ?a fl" by auto
  with ok have "graph_ok (graph (view c0)) (length (assignment (view c0)))"
    by (simp add: length_flipped)
  from finish_init_succeeds [OF this] obtain c where "finish_init mec c0 = Inr c" ..
  with fp len show ?thesis by (simp add: merge_def init_def)
qed

lemma merge_index_error:
  assumes "0 < len p"
    and "\<exists>k \<in> fst ` set fl. k < - int (length (assignment (view p))) \<or> int (length (assignment (view p))) \<le> k"
  shows "merge mec p fl = Inl IndexError"
proof -
  have "from_parent p (Some fl) = Inl IndexError"
    by (simp add: from_parent_def apply_flips_index_error [OF assms(2)])
  then have "init mec None None None (Some p) (Some fl) = Inl IndexError"
    using assms(1) by (simp add: init_def)
  then show ?thesis by (simp add: merge_def)
qed

text \<open>
  Let the parent have at least one part and \<open>n\<close> nodes. A Flip
  Set with a key \<open>k \<ge> n\<close> or \<open>k < -n\<close> makes the transition fail with IndexError, the
  exception of the list assignment on line 71 (the source validates nothing else and has
  no ValidationError). A Flip Set whose keys are NodeIds \<open>0 .. n-1\<close> makes it return a
  child when the parent's Parts Index is a defaultdict (a root) or already has every new
  label as a part.
\<close>

lemma merge_fails_or_succeeds:
  assumes "0 < len p"
  shows "((\<exists>k \<in> fst ` set fl. k < - int (length (assignment (view p))) \<or>
                              int (length (assignment (view p))) \<le> k)
            \<longrightarrow> merge mec p fl = Inl IndexError) \<and>
         (valid_flips (length (assignment (view p))) fl \<and>
          parts_match (parts (view p)) (assignment (view p)) \<and>
          graph_ok (graph (view p)) (length (assignment (view p))) \<and>
          (is_defaultdict (parts (view p)) \<or> snd ` set fl \<subseteq> fst ` set (items (parts (view p))))
            \<longrightarrow> (\<exists>p' c. merge mec p fl = Inr (p', c)))"
proof (intro conjI impI)
  assume "\<exists>k \<in> fst ` set fl. k < - int (length (assignment (view p))) \<or>
                              int (length (assignment (view p))) \<le> k"
  from merge_index_error [OF assms this] show "merge mec p fl = Inl IndexError" .
next
  assume h: "valid_flips (length (assignment (view p))) fl \<and>
          parts_match (parts (view p)) (assignment (view p)) \<and>
          graph_ok (graph (view p)) (length (assignment (view p))) \<and>
          (is_defaultdict (parts (view p)) \<or> snd ` set fl \<subseteq> fst ` set (items (parts (view p))))"
  then have "valid_flips (length (assignment (view p))) fl"
    "parts_match (parts (view p)) (assignment (view p))"
    "graph_ok (graph (view p)) (length (assignment (view p)))"
    "is_defaultdict (parts (view p)) \<or> snd ` set fl \<subseteq> fst ` set (items (parts (view p)))"
    by simp_all
  from merge_succeeds [OF assms this] show "\<exists>p' c. merge mec p fl = Inr (p', c)" .
qed

lemma merge_fails_or_succeeds_witness:
  "0 < len root4 \<and>
   (\<exists>k \<in> fst ` set [(4, StrL ''B'')]. k < - int (length (assignment (view root4))) \<or>
                                      int (length (assignment (view root4))) \<le> k) \<and>
   merge count_cut root4 [(4, StrL ''B'')] = Inl IndexError \<and>
   valid_flips (length (assignment (view root4))) flips4 \<and>
   parts_match (parts (view root4)) (assignment (view root4)) \<and>
   graph_ok (graph (view root4)) (length (assignment (view root4))) \<and>
   is_defaultdict (parts (view root4)) \<and>
   (\<exists>p' c. merge count_cut root4 flips4 = Inr (p', c))"
proof -
  have l: "0 < len root4" by (simp add: len_def root4_def)
  have b: "\<exists>k \<in> fst ` set [(4, StrL ''B'')]. k < - int (length (assignment (view root4))) \<or>
                                      int (length (assignment (view root4))) \<le> k"
    by (simp add: root4_def)
  have v: "valid_flips (length (assignment (view root4))) flips4"
    by (simp add: valid_flips_def flips4_def root4_def)
  have "parts (view root4) = group_parts (assignment (view root4))"
    by (simp add: root4_def group_parts_def members_def)
  then have m: "parts_match (parts (view root4)) (assignment (view root4))"
    by (simp add: group_parts_match)
  have g: "graph_ok (graph (view root4)) (length (assignment (view root4)))"
    by (simp add: graph_ok_def root4_def h4_def)
  have d: "is_defaultdict (parts (view root4))" by (simp add: root4_def)
  from merge_fails_or_succeeds [OF l, of "[(4, StrL ''B'')]" count_cut] b
  have e: "merge count_cut root4 [(4, StrL ''B'')] = Inl IndexError" by blast
  from merge_fails_or_succeeds [OF l, of flips4 count_cut] v m g d
  have "\<exists>p' c. merge count_cut root4 flips4 = Inr (p', c)" by blast
  with l b e v m g d show ?thesis by blast
qed

text \<open>
  Line 71 itself accepts the keys \<open>-n .. -1\<close>: Python's list assignment counts them from
  the end.
\<close>

lemma apply_flips_wraps:
  assumes "- int (length a) \<le> k" "k < 0"
  shows "apply_flips a [(k, v)] = Inr (a[nat (int (length a) + k) := v])"
  using assms by (simp add: list_set_def py_index_def)

lemma apply_flips_rejects:
  assumes "k < - int (length a) \<or> int (length a) \<le> k"
  shows "apply_flips a [(k, v)] = Inl IndexError"
  using assms by (auto simp: list_set_def py_index_def)

text \<open>
  The KeyError is not particular to the scenario: on every parent that is a child (its
  Parts Index is a plain dict), a Flip Set over NodeIds \<open>0 .. n-1\<close> that gives some node
  a label which is not yet a part makes the transition raise KeyError.
\<close>

lemma merge_new_label_on_child:
  assumes len: "0 < len p"
    and nd: "\<not> is_defaultdict (parts (view p))"
    and vf: "valid_flips (length (assignment (view p))) fl"
    and pm: "parts_match (parts (view p)) (assignment (view p))"
    and ok: "graph_ok (graph (view p)) (length (assignment (view p)))"
    and kt: "(k, t) \<in> set fl"
    and new: "t \<notin> fst ` set (items (parts (view p)))"
  shows "merge mec p fl = Inl KeyError"
proof -
  let ?a = "assignment (view p)"
  from vf kt have k: "0 \<le> k" "k < int (length ?a)" by (auto simp: valid_flips_def)
  then have "?a ! nat k \<in> set ?a" by simp
  from parts_match_keys [OF pm this] new have ne: "?a ! nat k \<noteq> t" by auto
  from flows_from_changes_valid [OF vf] obtain F where F: "flows_from_changes ?a fl = Inr F"
    and Fin: "\<forall>l. flow_in (flow_of F l) = entering ?a fl l \<and> flow_out (flow_of F l) = leaving ?a fl l"
    by blast
  from kt ne have "k \<in> entering ?a fl t" by (simp add: entering_def)
  with Fin have "flow_in (flow_of F t) \<noteq> {}" by auto
  then have "map_of F t \<noteq> None" by (auto simp: flow_of_def)
  then have "t \<in> fst ` set F" by (simp add: map_of_eq_None_iff)
  with new have ns: "\<not> fst ` set F \<subseteq> fst ` set (items (parts (view p)))" by blast
  from parts_loop_keyerror [OF nd ns]
  have lp: "parts_loop F (parts (view p)) (items (parts (view p))) = Inl KeyError" .
  from compute_edge_flows_succeeds [OF ok length_flipped, of fl] obtain ef where
    ef: "compute_edge_flows (graph (view p)) ?a (flipped ?a fl) fl = Inr ef" ..
  have up: "update_parts (view p) fl (flipped ?a fl) = Inl KeyError"
    by (simp add: update_parts_def F ef lp)
  from apply_flips_flipped [OF vf] have af: "apply_flips ?a fl = Inr (flipped ?a fl)" .
  have "from_parent p (Some fl) = Inl KeyError"
    by (simp add: from_parent_def af up)
  then have "init mec None None None (Some p) (Some fl) = Inl KeyError"
    using len by (simp add: init_def)
  then show ?thesis by (simp add: merge_def)
qed

section \<open>The Parts Index of roots and children\<close>

text \<open>
  A root's Parts Index is the inverse image of its assignment, without empty parts, and so
  is the Parts Index of every child that a Flip Set over NodeIds \<open>0 .. n-1\<close> produces.
  The parent that \<open>merge\<close> leaves behind still agrees with its assignment on every label,
  but it may hold empty entries.
\<close>

lemma group_parts_nonempty:
  assumes "(l, s) \<in> set (items (group_parts a))"
  shows "s \<noteq> {}"
proof -
  have "distinct (map fst (items (group_parts a)))"
    using group_loop_distinct [of "[]" 0 a] by (simp add: group_parts_def)
  from map_of_is_SomeI [OF this assms] have "map_of (items (group_parts a)) l = Some s" .
  then show ?thesis by (simp add: group_parts_map split: if_splits)
qed

lemma create_root_invariant:
  assumes "create_root mec gr a ups = Inr r"
  shows "parts_match (parts (view r)) (assignment (view r))"
    and "graph_ok (graph (view r)) (length (assignment (view r)))"
    and "is_defaultdict (parts (view r))"
    and "\<forall>(l, s) \<in> set (items (parts (view r))). s \<noteq> {}"
    and "max_edge_cuts_fn mec (graph (view r)) (assignment (view r)) = Inr (max_edge_cuts (view r))"
proof -
  from create_root_unfold [OF assms] obtain r0 where r0: "first_time mec gr a ups = Inr r0"
    and fi: "finish_init mec r0 = Inr r" by blast
  note F = finish_init_fields [OF fi]
  note R = first_time_fields [OF r0]
  from R(8) obtain g0 where g0: "graph (view r0) = convert_node_labels_to_integers g0 ''OLDID''"
    "assignment (view r0) = initial_assignment (graph (view r0)) (length (gnodes g0)) a"
    by blast
  show "parts_match (parts (view r)) (assignment (view r))"
    by (simp add: F R(3) group_parts_match)
  show "graph_ok (graph (view r)) (length (assignment (view r)))"
    using convert_graph_ok [of g0 "''OLDID''"] g0
    by (simp add: F length_initial_assignment)
  show "is_defaultdict (parts (view r))" by (simp add: F R(3) group_parts_def)
  show "\<forall>(l, s) \<in> set (items (parts (view r))). s \<noteq> {}"
    using group_parts_nonempty by (auto simp: F R(3))
  show "max_edge_cuts_fn mec (graph (view r)) (assignment (view r)) = Inr (max_edge_cuts (view r))"
    using F(9) by (simp add: F(1,2))
qed

lemma members_of_map:
  "map_of d = map_of d' \<Longrightarrow> members d l = members d' l"
  by (simp add: members_def)

lemma merge_invariant:
  assumes pm: "parts_match (parts (view p)) (assignment (view p))"
    and ok: "graph_ok (graph (view p)) (length (assignment (view p)))"
    and vf: "valid_flips (length (assignment (view p))) fl"
    and mg: "merge mec p fl = Inr (p', c)"
  shows "parts_match (parts (view c)) (assignment (view c))"
    and "graph_ok (graph (view c)) (length (assignment (view c)))"
    and "\<not> is_defaultdict (parts (view c))"
    and "\<forall>(l, s) \<in> set (items (parts (view c))). s \<noteq> {}"
    and "max_edge_cuts_fn mec (graph (view c)) (assignment (view c)) = Inr (max_edge_cuts (view c))"
    and "parts_match (parts (view p')) (assignment (view p'))"
    and "graph_ok (graph (view p')) (length (assignment (view p')))"
    and "assignment (view p') = assignment (view p)"
proof -
  let ?a = "assignment (view p)"
  from merge_unfold [OF mg] obtain c0 where fp: "from_parent p (Some fl) = Inr (p', c0)"
    and fi: "finish_init mec c0 = Inr c" by blast
  note F = finish_init_fields [OF fi]
  from from_parent_unfold [OF fp] obtain asg pp F' ef sp where
    af: "apply_flips ?a fl = Inr asg"
    and up: "update_parts (view p) fl asg = Inr (pp, F', ef, sp)"
    and c0: "assignment (view c0) = asg" "parts (view c0) = sp" "graph (view c0) = graph (view p)"
    and p': "assignment (view p') = ?a" "parts (view p') = pp" "graph (view p') = graph (view p)"
    by blast
  from af apply_flips_flipped [OF vf] have asg: "asg = flipped ?a fl" by simp
  from flows_from_changes_valid [OF vf] obtain G where G: "flows_from_changes ?a fl = Inr G"
    "distinct (map fst G)" by blast
  from up G(1) obtain sp0 where lp: "parts_loop G (parts (view p)) (items (parts (view p))) = Inr (pp, sp0)"
    and sp: "sp = prune sp0"
    by (auto simp: update_parts_def split: sum.splits)
  note L = parts_loop_result [OF lp G(2)]
  from pm have d: "distinct (map fst (items (parts (view p))))"
    and m: "\<And>l. members (items (parts (view p))) l = preimage ?a l"
    by (auto simp: parts_match_def)
  from L d have d0: "distinct (map fst sp0)" by blast
  have eq: "map_of (items sp) = map_of (items (group_parts asg))"
    using update_parts_regroups [OF pm vf up] by (simp add: asg)
  have "members (items sp) l = preimage asg l" for l
    using members_of_map [OF eq, of l] group_parts_match [of asg] by (simp add: parts_match_def)
  moreover have "distinct (map fst (items sp))" using d0 by (simp add: sp prune_distinct)
  ultimately show "parts_match (parts (view c)) (assignment (view c))"
    by (simp add: F c0 parts_match_def)
  show "graph_ok (graph (view c)) (length (assignment (view c)))"
    using ok by (simp add: F c0 asg length_flipped)
  show "\<not> is_defaultdict (parts (view c))" by (simp add: F c0 sp prune_def)
  show "\<forall>(l, s) \<in> set (items (parts (view c))). s \<noteq> {}"
    using prune_nonempty by (auto simp: F c0 sp)
  show "max_edge_cuts_fn mec (graph (view c)) (assignment (view c)) = Inr (max_edge_cuts (view c))"
    using F(9) by (simp add: F(1,2))
  have "members (items pp) l = preimage ?a l" for l using L m by simp
  moreover have "distinct (map fst (items pp))" using L d by blast
  ultimately show "parts_match (parts (view p')) (assignment (view p'))"
    by (simp add: p' parts_match_def)
  show "graph_ok (graph (view p')) (length (assignment (view p')))" using ok by (simp add: p')
  show "assignment (view p') = assignment (view p)" by (simp add: p')
qed

section \<open>Flips to the current label\<close>

text \<open>
  On a parent with at least one part and no empty entry in its Parts Index, a Flip Set
  that maps nodes to their current labels leaves the parent as it is and yields a child
  with the parent's assignment, Parts Index entries and max\_edge\_cuts, and no flows.
\<close>

lemma flipped_noop:
  assumes "\<forall>(k, t) \<in> set fl. 0 \<le> k \<and> k < int (length a) \<and> a ! nat k = t"
  shows "flipped a fl = a"
proof (rule nth_equalityI)
  show "length (flipped a fl) = length a" by (simp add: flipped_def)
next
  fix i assume "i < length (flipped a fl)"
  then have i: "i < length a" by (simp add: flipped_def)
  show "flipped a fl ! i = a ! i"
  proof (cases "map_of fl (int i)")
    case None
    with i show ?thesis by (simp add: flipped_def)
  next
    case (Some t)
    from map_of_SomeD [OF this] have "(int i, t) \<in> set fl" .
    with assms have "case (int i, t) of (k, t) \<Rightarrow> 0 \<le> k \<and> k < int (length a) \<and> a ! nat k = t" ..
    then have "a ! i = t" by simp
    with Some i show ?thesis by (simp add: flipped_def)
  qed
qed

lemma flows_loop_noop:
  "\<forall>(k, t) \<in> set fl. 0 \<le> k \<and> k < int (length a) \<and> a ! nat k = t \<Longrightarrow> flows_loop a fl F = Inr F"
proof (induction fl)
  case Nil
  then show ?case by simp
next
  case (Cons kv fs)
  obtain k t where kv: "kv = (k, t)" by (cases kv)
  from Cons.prems kv have k: "0 \<le> k" "k < int (length a)" "a ! nat k = t"
    and r: "\<forall>(k, t) \<in> set fs. 0 \<le> k \<and> k < int (length a) \<and> a ! nat k = t" by auto
  from Cons.IH [OF r] k show ?case by (simp add: kv list_get_valid)
qed

lemma prune_all_nonempty:
  "\<forall>(l, s) \<in> set sp. s \<noteq> {} \<Longrightarrow> items (prune sp) = sp"
  by (induction sp) (auto simp: prune_def)

lemma noop_flip_stable:
  assumes len: "0 < len p"
    and vf: "valid_flips (length (assignment (view p))) fl"
    and noop: "\<forall>(k, t) \<in> set fl. assignment (view p) ! nat k = t"
    and ok: "graph_ok (graph (view p)) (length (assignment (view p)))"
    and ne: "\<forall>(l, s) \<in> set (items (parts (view p))). s \<noteq> {}"
    and mc: "max_edge_cuts_fn mec (graph (view p)) (assignment (view p)) = Inr (max_edge_cuts (view p))"
  shows "\<exists>c. merge mec p fl = Inr (p, c) \<and> assignment (view c) = assignment (view p) \<and>
             items (parts (view c)) = items (parts (view p)) \<and>
             max_edge_cuts (view c) = max_edge_cuts (view p) \<and> flows (view c) = Some []"
proof -
  let ?a = "assignment (view p)"
  from vf noop have nv: "\<forall>(k, t) \<in> set fl. 0 \<le> k \<and> k < int (length ?a) \<and> ?a ! nat k = t"
    by (fastforce simp: valid_flips_def)
  from apply_flips_flipped [OF vf] flipped_noop [OF nv] have af: "apply_flips ?a fl = Inr ?a" by simp
  from flows_loop_noop [OF nv, of "[]"] have fl: "flows_from_changes ?a fl = Inr []"
    by (simp add: flows_from_changes_def)
  from compute_edge_flows_succeeds [OF ok refl, of fl] obtain ef where
    ef: "compute_edge_flows (graph (view p)) ?a ?a fl = Inr ef" ..
  have up: "update_parts (view p) fl ?a = Inr (parts (view p), [], ef, prune (items (parts (view p))))"
    by (simp add: update_parts_def fl ef)
  have pv: "PState (graph (view p)) ?a (parts (view p)) (parent (view p)) (flips (view p))
              (flows (view p)) (edge_flows (view p)) (max_edge_cuts (view p)) = view p"
    by (cases "view p") simp
  let ?c0 = "\<lparr> view = PState (graph (view p)) ?a (prune (items (parts (view p)))) (Some (view p))
                         (Some fl) (Some []) (Some ef) (max_edge_cuts (view p)),
                updaters = updaters p, cache = [] \<rparr>"
  have fp: "from_parent p (Some fl) = Inr (p, ?c0)"
    by (simp add: from_parent_def af up Let_def pv)
  have "graph_ok (graph (view ?c0)) (length (assignment (view ?c0)))" using ok by simp
  from finish_init_succeeds [OF this] obtain c where fi: "finish_init mec ?c0 = Inr c" ..
  note F = finish_init_fields [OF fi]
  from F(9) mc have "max_edge_cuts (view c) = max_edge_cuts (view p)" by simp
  moreover have "items (parts (view c)) = items (parts (view p))"
    using prune_all_nonempty [OF ne] by (simp add: F)
  moreover have "assignment (view c) = ?a" "flows (view c) = Some []" by (simp_all add: F)
  moreover from fp fi len have "merge mec p fl = Inr (p, c)" by (simp add: merge_def init_def)
  ultimately show ?thesis by blast
qed

section \<open>Exceptions and the parent\<close>

text \<open>
  The only statement of the constructor that can change the parent is the read on line 96,
  in the loop of \<open>_update_parts\<close>, and only when the parent's Parts Index is a
  defaultdict; that loop then does not raise. Once \<open>_from_parent\<close> has returned, the
  rest of the constructor returns too on a parent whose graph joins nodes \<open>0 .. n-1\<close>,
  so a transition that raises has not touched its parent.
\<close>

lemma apply_flips_length: "apply_flips a fl = Inr a' \<Longrightarrow> length a' = length a"
proof (induction fl arbitrary: a)
  case Nil
  then show ?case by simp
next
  case (Cons kv fs)
  obtain k v where kv: "kv = (k, v)" by (cases kv)
  from Cons.prems kv obtain a1 where a1: "list_set a k v = Inr a1" and r: "apply_flips a1 fs = Inr a'"
    by (cases "list_set a k v") simp_all
  from Cons.IH [OF r] list_set_length [OF a1] show ?case by simp
qed

lemma constructor_returns_after_from_parent:
  assumes ok: "graph_ok (graph (view p)) (length (assignment (view p)))"
    and fp: "from_parent p (Some fl) = Inr (p', c0)"
  shows "\<exists>c. finish_init mec c0 = Inr c"
proof -
  from from_parent_unfold [OF fp] obtain asg where
    af: "apply_flips (assignment (view p)) fl = Inr asg"
    and c0: "assignment (view c0) = asg" "graph (view c0) = graph (view p)"
    by blast
  from apply_flips_length [OF af] ok c0
  have "graph_ok (graph (view c0)) (length (assignment (view c0)))" by simp
  from finish_init_succeeds [OF this] show ?thesis .
qed

end
